theory Spec2Isabelle
  imports Complex_Main "HOL-Library.Char_ord" "HOL-Library.List_Lexorder"
begin

section \<open>Assumption-free anomaly detection: the module \<open>assumption_free.py\<close>\<close>

text \<open>
  The development embeds the class \<open>AssumptionFreeAA\<close> function by function.
  Conventions of the embedding:
  \<^item> a Python exception is a value of \<open>error\<close>; a function that can raise returns
    \<open>error + 'a\<close> with \<open>Inl\<close> for the exception;
  \<^item> Python integers are \<open>int\<close>; lengths and indices are \<open>nat\<close>;
  \<^item> a sample is a finite number, modelled as \<open>real\<close>. numpy's float64 arithmetic is
    modelled by exact real arithmetic extended with the special values of IEEE 754
    (\<open>npfloat\<close>): rounding is not modelled, infinities and NaN are;
  \<^item> \<open>scipy.stats.norm.ppf\<close> is library code outside the repository and is a
    parameter \<open>ppf\<close> of every function that reaches it.
\<close>

subsection \<open>Exceptions\<close>

datatype error = IndexError | ValueError | ZeroDivisionError | TypeError | OverflowError | Exception

definition ebind :: "error + 'a \<Rightarrow> ('a \<Rightarrow> error + 'b) \<Rightarrow> error + 'b" where
  "ebind r f = (case r of Inl e \<Rightarrow> Inl e | Inr v \<Rightarrow> f v)"

text \<open>A list comprehension whose body can raise: the first exception aborts it.\<close>

fun traverse :: "('a \<Rightarrow> error + 'b) \<Rightarrow> 'a list \<Rightarrow> error + 'b list" where
  "traverse f [] = Inr []"
| "traverse f (x # xs) =
     (case f x of
        Inl e \<Rightarrow> Inl e
      | Inr y \<Rightarrow> (case traverse f xs of Inl e \<Rightarrow> Inl e | Inr ys \<Rightarrow> Inr (y # ys)))"

subsection \<open>numpy floats and the array operations the module uses\<close>

datatype npfloat = Fin real | PInf | NInf | NaN

fun np_neg :: "npfloat \<Rightarrow> npfloat" where
  "np_neg (Fin a) = Fin (- a)"
| "np_neg PInf = NInf"
| "np_neg NInf = PInf"
| "np_neg NaN = NaN"

fun np_add :: "npfloat \<Rightarrow> npfloat \<Rightarrow> npfloat" where
  "np_add (Fin a) (Fin b) = Fin (a + b)"
| "np_add NaN y = NaN"
| "np_add x NaN = NaN"
| "np_add PInf NInf = NaN"
| "np_add NInf PInf = NaN"
| "np_add PInf y = PInf"
| "np_add x PInf = PInf"
| "np_add NInf y = NInf"
| "np_add x NInf = NInf"

definition np_sub :: "npfloat \<Rightarrow> npfloat \<Rightarrow> npfloat" where
  "np_sub x y = np_add x (np_neg y)"

definition inf_of_sign :: "real \<Rightarrow> npfloat" where
  "inf_of_sign a = (if a = 0 then NaN else if 0 < a then PInf else NInf)"

fun np_mul :: "npfloat \<Rightarrow> npfloat \<Rightarrow> npfloat" where
  "np_mul (Fin a) (Fin b) = Fin (a * b)"
| "np_mul NaN y = NaN"
| "np_mul x NaN = NaN"
| "np_mul (Fin a) PInf = inf_of_sign a"
| "np_mul (Fin a) NInf = inf_of_sign (- a)"
| "np_mul PInf (Fin b) = inf_of_sign b"
| "np_mul NInf (Fin b) = inf_of_sign (- b)"
| "np_mul PInf PInf = PInf"
| "np_mul PInf NInf = NInf"
| "np_mul NInf PInf = NInf"
| "np_mul NInf NInf = PInf"

text \<open>Division of numpy scalars: a zero divisor gives an infinity or NaN (with a
  warning), never an exception. Signed zeros are not modelled: a zero is \<open>+0\<close>.\<close>

fun np_div :: "npfloat \<Rightarrow> npfloat \<Rightarrow> npfloat" where
  "np_div (Fin a) (Fin b) = (if b = 0 then inf_of_sign a else Fin (a / b))"
| "np_div NaN y = NaN"
| "np_div x NaN = NaN"
| "np_div (Fin a) PInf = Fin 0"
| "np_div (Fin a) NInf = Fin 0"
| "np_div PInf (Fin b) = (if 0 \<le> b then PInf else NInf)"
| "np_div NInf (Fin b) = (if 0 \<le> b then NInf else PInf)"
| "np_div PInf PInf = NaN"
| "np_div PInf NInf = NaN"
| "np_div NInf PInf = NaN"
| "np_div NInf NInf = NaN"

fun np_sqrt :: "npfloat \<Rightarrow> npfloat" where
  "np_sqrt (Fin a) = (if a < 0 then NaN else Fin (sqrt a))"
| "np_sqrt PInf = PInf"
| "np_sqrt NInf = NaN"
| "np_sqrt NaN = NaN"

text \<open>\<open>np_gt x y\<close> is \<open>x > y\<close>; every comparison with NaN is false.\<close>

fun np_gt :: "npfloat \<Rightarrow> npfloat \<Rightarrow> bool" where
  "np_gt (Fin a) (Fin b) = (b < a)"
| "np_gt NaN y = False"
| "np_gt x NaN = False"
| "np_gt PInf PInf = False"
| "np_gt PInf y = True"
| "np_gt NInf y = False"
| "np_gt (Fin a) PInf = False"
| "np_gt (Fin a) NInf = True"

definition np_sum :: "npfloat list \<Rightarrow> npfloat" where
  "np_sum xs = foldl np_add (Fin 0) xs"

text \<open>\<open>np.mean\<close>: the sum over the length; the empty array gives \<open>0/0 = NaN\<close>.\<close>

definition np_mean :: "npfloat list \<Rightarrow> npfloat" where
  "np_mean xs = np_div (np_sum xs) (Fin (real (length xs)))"

text \<open>\<open>ndarray.std\<close>: \<open>sqrt(mean(abs(x - x.mean())**2))\<close>.\<close>

definition np_std :: "npfloat list \<Rightarrow> npfloat" where
  "np_std xs =
     np_sqrt (np_mean (map (\<lambda>x. np_mul (np_sub x (np_mean xs)) (np_sub x (np_mean xs))) xs))"

text \<open>\<open>np.linspace(start, stop, num)\<close> with the default \<open>endpoint=True\<close>; a negative
  \<open>num\<close> raises ValueError.\<close>

definition linspace :: "real \<Rightarrow> real \<Rightarrow> int \<Rightarrow> error + real list" where
  "linspace start stop num =
     (if num < 0 then Inl ValueError
      else if num = 1 then Inr [start]
      else Inr (map (\<lambda>i. start + real i * ((stop - start) / real_of_int (num - 1)))
                  [0..<nat num]))"

text \<open>\<open>np.array_split(ary, n)\<close>: with \<open>(q, r) = divmod(len(ary), n)\<close> the first \<open>r\<close>
  sections have \<open>q + 1\<close> elements and the other \<open>n - r\<close> have \<open>q\<close>; \<open>n \<le> 0\<close> raises
  ValueError.\<close>

fun split_sizes :: "nat list \<Rightarrow> 'a list \<Rightarrow> 'a list list" where
  "split_sizes [] xs = []"
| "split_sizes (s # ss) xs = take s xs # split_sizes ss (drop s xs)"

definition section_sizes :: "nat \<Rightarrow> nat \<Rightarrow> nat list" where
  "section_sizes len n = replicate (len mod n) (len div n + 1) @ replicate (n - len mod n) (len div n)"

definition array_split :: "'a list \<Rightarrow> int \<Rightarrow> error + 'a list list" where
  "array_split ary n =
     (if n \<le> 0 then Inl ValueError
      else Inr (split_sizes (section_sizes (length ary) (nat n)) ary))"

text \<open>\<open>np.where(cond)[0][0]\<close>: the index of the first element that satisfies the
  condition; IndexError when there is none.\<close>

fun first_index :: "('a \<Rightarrow> bool) \<Rightarrow> 'a list \<Rightarrow> error + nat" where
  "first_index p [] = Inl IndexError"
| "first_index p (x # xs) =
     (if p x then Inr 0
      else (case first_index p xs of Inl e \<Rightarrow> Inl e | Inr i \<Rightarrow> Inr (Suc i)))"

definition ascii_letters :: string where
  "ascii_letters = ''abcdefghijklmnopqrstuvwxyzABCDEFGHIJKLMNOPQRSTUVWXYZ''"

definition letter :: "nat \<Rightarrow> error + char" where
  "letter ind = (if ind < length ascii_letters then Inr (ascii_letters ! ind) else Inl IndexError)"

subsection \<open>\<open>_sax\<close>\<close>

definition scale_factor :: "real list \<Rightarrow> npfloat" where
  "scale_factor data =
     np_div (Fin 1) (np_std (map (\<lambda>x. np_sub (Fin x) (np_mean (map Fin data))) data))"

definition standardize :: "real list \<Rightarrow> npfloat list" where
  "standardize data =
     map (\<lambda>x. np_mul (np_sub (Fin x) (np_mean (map Fin data))) (scale_factor data)) data"

definition breakpoints :: "(real \<Rightarrow> real) \<Rightarrow> int \<Rightarrow> error + npfloat list" where
  "breakpoints ppf alphbt_size =
     (if alphbt_size = 0 then Inl ZeroDivisionError
      else ebind (linspace (1 / real_of_int alphbt_size) (1 - 1 / real_of_int alphbt_size)
                    (alphbt_size - 1))
             (\<lambda>pts. Inr (map (\<lambda>p. Fin (ppf p)) pts @ [PInf])))"

definition sax :: "(real \<Rightarrow> real) \<Rightarrow> real list \<Rightarrow> int \<Rightarrow> int \<Rightarrow> error + string" where
  "sax ppf data alphbt_size word_size =
     (let scaled_data = standardize data in
      ebind (breakpoints ppf alphbt_size) (\<lambda>bps.
      ebind (array_split scaled_data word_size) (\<lambda>sections.
      let section_means = map np_mean sections in
      ebind (traverse (\<lambda>section_mean. first_index (\<lambda>b. np_gt b section_mean) bps) section_means)
        (\<lambda>section_locations. traverse letter section_locations))))"

text \<open>The mean, the (population) standard deviation and the standardized values of a
  list of reals, as numbers.\<close>

definition mean_of :: "real list \<Rightarrow> real" where
  "mean_of xs = sum_list xs / real (length xs)"

definition std_of :: "real list \<Rightarrow> real" where
  "std_of xs = sqrt (mean_of (map (\<lambda>x. (x - mean_of xs) * (x - mean_of xs)) xs))"


subsection \<open>\<open>_dist\<close>\<close>

text \<open>A bitmap is a two-dimensional array, stored as the list of its rows. The shape
  of the array with no row is \<open>(0, 0)\<close>.\<close>

type_synonym bitmap = "real list list"

definition nrows :: "bitmap \<Rightarrow> nat" where
  "nrows A = length A"

definition ncols :: "bitmap \<Rightarrow> nat" where
  "ncols A = (case A of [] \<Rightarrow> 0 | r # _ \<Rightarrow> length r)"

text \<open>numpy broadcasting of one axis: equal lengths, or one of them is 1; otherwise
  the subtraction raises ValueError.\<close>

definition broadcast_dim :: "nat \<Rightarrow> nat \<Rightarrow> nat option" where
  "broadcast_dim a b =
     (if a = b then Some a else if a = 1 then Some b else if b = 1 then Some a else None)"

definition bcell :: "bitmap \<Rightarrow> nat \<Rightarrow> nat \<Rightarrow> real" where
  "bcell A i j = A ! (if nrows A = 1 then 0 else i) ! (if ncols A = 1 then 0 else j)"

definition dist :: "bitmap \<Rightarrow> bitmap \<Rightarrow> error + real" where
  "dist A B =
     (case (broadcast_dim (nrows A) (nrows B), broadcast_dim (ncols A) (ncols B)) of
        (Some r, Some c) \<Rightarrow>
          Inr (\<Sum>i\<leftarrow>[0..<r]. \<Sum>j\<leftarrow>[0..<c]. (bcell A i j - bcell B i j) ^ 2)
      | _ \<Rightarrow> Inl ValueError)"



subsection \<open>\<open>_build_combinations\<close>\<close>

function build_combinations :: "string \<Rightarrow> string set \<Rightarrow> int \<Rightarrow> string set" where
  "build_combinations alphabet combinations combination_len =
     (let combinations1 =
            (if combinations = {} then (\<lambda>a. [a]) ` set alphabet else combinations);
          combination_len1 = (if combinations = {} then combination_len - 1 else combination_len)
      in if combination_len1 \<le> 0 then combinations1
         else build_combinations alphabet
                ((\<lambda>(a, c). c @ a) ` (((\<lambda>a. [a]) ` set alphabet) \<times> combinations1))
                (combination_len1 - 1))"
  by pat_completeness auto
termination
  by (relation "measure (\<lambda>(alphabet, combinations, combination_len). nat combination_len)")
    (auto split: if_splits)

declare build_combinations.simps [simp del]

text \<open>The set of all strings of length \<open>n\<close> over the characters of an alphabet.\<close>

definition strings_over :: "string \<Rightarrow> nat \<Rightarrow> string set" where
  "strings_over alphabet n = set (List.n_lists n alphabet)"

subsection \<open>\<open>_count_substr\<close> and \<open>_count_frequencies\<close>\<close>

definition count_substr :: "string \<Rightarrow> string \<Rightarrow> nat" where
  "count_substr stack needle =
     length (filter (\<lambda>i. take (length needle) (drop i stack) = needle)
               [0..<nat (int (length stack) - int (length needle) + 1)])"

text \<open>The needle occurs in the stack at position \<open>i\<close>.\<close>

definition occurs_at :: "string \<Rightarrow> string \<Rightarrow> nat \<Rightarrow> bool" where
  "occurs_at stack needle i =
     (i + length needle \<le> length stack \<and> take (length needle) (drop i stack) = needle)"

text \<open>The dictionary \<open>freqs\<close> is a finite map. Its values are the floats \<open>0.\<close> plus
  integer counts, that is natural numbers. The inner loop adds to every key its count in
  the current word.\<close>

type_synonym freqs = "string \<rightharpoonup> nat"

definition add_word :: "freqs \<Rightarrow> string \<Rightarrow> freqs" where
  "add_word fr word = (\<lambda>key. map_option (\<lambda>v. v + count_substr word key) (fr key))"

definition count_frequencies :: "string list \<Rightarrow> string \<Rightarrow> int \<Rightarrow> freqs" where
  "count_frequencies words alphabet subword_len =
     (let combinations = build_combinations alphabet {} subword_len
      in foldl add_word (\<lambda>c. if c \<in> combinations then Some 0 else None) words)"

subsection \<open>\<open>_build_bitmap\<close>\<close>

text \<open>
  \<open>matrix_size = sqrt(len(freqs))\<close> is a float. \<open>np.zeros\<close> truncates it to the side of
  the array, \<open>matrix_side\<close>: the number of \<open>m \<ge> 1\<close> with \<open>m * m \<le> len(freqs)\<close>. In the loop \<open>j\<close> runs over whole numbers not above the side,
  so \<open>j % matrix_size\<close> is \<open>j mod side\<close> when the square root is whole and \<open>j\<close>
  otherwise, and \<open>j == matrix_size\<close> can only hold when the square root is whole.
  A write outside the array raises IndexError; \<open>max\<close> of no values raises ValueError.
\<close>

definition matrix_side :: "nat \<Rightarrow> nat" where
  "matrix_side n = length (filter (\<lambda>m. m * m \<le> n) [1..<n + 1])"

definition whole_sqrt :: "nat \<Rightarrow> bool" where
  "whole_sqrt n = (matrix_side n * matrix_side n = n)"

definition zeros :: "nat \<Rightarrow> bitmap" where
  "zeros m = replicate m (replicate m 0)"

definition normalized :: "freqs \<Rightarrow> nat \<Rightarrow> string \<Rightarrow> real" where
  "normalized fr max_value key =
     (if max_value \<noteq> 0 then real (the (fr key)) / real max_value else 0)"

definition bitmap_step ::
  "freqs \<Rightarrow> nat \<Rightarrow> nat \<times> nat \<times> bitmap \<Rightarrow> string \<Rightarrow> error + nat \<times> nat \<times> bitmap" where
  "bitmap_step fr max_value st key =
     (case st of (i, j, bm) \<Rightarrow>
        let n = card (dom fr);
            j1 = (if whole_sqrt n then j mod matrix_side n else j)
        in if i < matrix_side n \<and> j1 < matrix_side n
           then Inr (if whole_sqrt n \<and> j1 + 1 = matrix_side n then i + 1 else i,
                     j1 + 1,
                     bm[i := (bm ! i)[j1 := normalized fr max_value key]])
           else Inl IndexError)"

fun bitmap_loop ::
  "freqs \<Rightarrow> nat \<Rightarrow> nat \<times> nat \<times> bitmap \<Rightarrow> string list \<Rightarrow> error + nat \<times> nat \<times> bitmap" where
  "bitmap_loop fr max_value st [] = Inr st"
| "bitmap_loop fr max_value st (key # keys) =
     (case bitmap_step fr max_value st key of
        Inl e \<Rightarrow> Inl e
      | Inr st' \<Rightarrow> bitmap_loop fr max_value st' keys)"

definition build_bitmap :: "freqs \<Rightarrow> error + bitmap" where
  "build_bitmap fr =
     (let bm = zeros (matrix_side (card (dom fr)));
          ordered_keys = sorted_list_of_set (dom fr)
      in if dom fr = {} then Inl ValueError
         else ebind (bitmap_loop fr (Max (ran fr)) (0, 0, bm) ordered_keys)
                (\<lambda>(i, j, bm'). Inr bm'))"

subsection \<open>\<open>_get_words\<close>\<close>

text \<open>\<open>islice(window, start, stop)\<close> for \<open>0 \<le> start \<le> stop\<close>.\<close>

definition islice :: "'a list \<Rightarrow> nat \<Rightarrow> nat \<Rightarrow> 'a list" where
  "islice xs start stop = take (stop - start) (drop start xs)"

text \<open>\<open>len(window) % feature_size\<close> raises ZeroDivisionError for \<open>feature_size = 0\<close>;
  Python's \<open>%\<close> is the \<open>mod\<close> of \<open>int\<close>. The call of \<open>_sax\<close> leaves \<open>alphbt_size\<close> at
  its default 4.\<close>

definition get_words :: "(real \<Rightarrow> real) \<Rightarrow> real list \<Rightarrow> int \<Rightarrow> int \<Rightarrow> error + string list" where
  "get_words ppf window feature_size word_size =
     (if feature_size = 0 then Inl ZeroDivisionError
      else if int (length window) mod feature_size \<noteq> 0 then Inl Exception
      else let factor = int (length window) div feature_size
           in traverse
                (\<lambda>i. sax ppf (islice window (i * nat feature_size) ((i + 1) * nat feature_size))
                        4 word_size)
                [0..<nat factor])"

subsection \<open>The detector: \<open>__init__\<close> and \<open>detect\<close>\<close>

text \<open>A timestamp is a point of a discrete time line; \<open>datetime.min\<close> is its origin.\<close>

type_synonym timestamp = nat

record detector =
  window_factor :: int
  window_size :: int
  lead_window_factor :: int
  lead_window_size :: int
  lag_window_factor :: int
  lag_window_size :: int
  universe_size :: int
  word_size :: int
  recursion_level :: int
  lead_window :: "real list"
  lag_window :: "real list"
  last_timestamp :: timestamp

record analysis =
  score :: real
  bitmp1 :: bitmap
  bitmp2 :: bitmap

text \<open>\<open>deque(maxlen=n)\<close> converts \<open>n\<close> to a C \<open>ssize_t\<close> (64 bits wide on the platforms
  considered here), which raises OverflowError outside \<open>-2^63 .. 2^63 - 1\<close>, and then
  raises ValueError for a negative \<open>n\<close>.\<close>

definition deque_maxlen :: "int \<Rightarrow> error + int" where
  "deque_maxlen n =
     (if n < - (2 ^ 63) \<or> 2 ^ 63 \<le> n then Inl OverflowError
      else if n < 0 then Inl ValueError
      else Inr n)"

text \<open>\<open>__init__\<close>. The two windows are the only deques, the lead window is created
  first; their \<open>maxlen\<close> is the field \<open>lead_window_size\<close> or \<open>lag_window_size\<close>.\<close>

definition init :: "int \<Rightarrow> int \<Rightarrow> int \<Rightarrow> int \<Rightarrow> int \<Rightarrow> error + detector" where
  "init word_size' window_factor' lead_window_factor' lag_window_factor' recursion_level' =
     (let window_size' = window_factor' * word_size';
          lead_window_size' = lead_window_factor' * window_size';
          lag_window_size' = lag_window_factor' * window_size'
      in ebind (deque_maxlen lead_window_size') (\<lambda>lead_maxlen.
         ebind (deque_maxlen lag_window_size') (\<lambda>lag_maxlen.
         Inr \<lparr>window_factor = window_factor', window_size = window_size',
              lead_window_factor = lead_window_factor', lead_window_size = lead_window_size',
              lag_window_factor = lag_window_factor', lag_window_size = lag_window_size',
              universe_size = lead_window_size' + lag_window_size',
              word_size = word_size', recursion_level = recursion_level',
              lead_window = [], lag_window = [], last_timestamp = 0\<rparr>)))"

text \<open>\<open>deque.append\<close> on a bounded deque: the new element goes to the right end and
  the left end is dropped while the deque is longer than \<open>maxlen\<close>.\<close>

definition deque_append :: "int \<Rightarrow> 'a list \<Rightarrow> 'a \<Rightarrow> 'a list" where
  "deque_append maxlen xs x = drop (nat (int (length xs) + 1 - maxlen)) (xs @ [x])"

text \<open>Lines 213 to 215: the window update for one datapoint. \<open>popleft\<close> on an empty
  deque raises IndexError.\<close>

definition shift :: "detector \<Rightarrow> real \<Rightarrow> error + detector" where
  "shift d datapoint =
     (if int (length (lead_window d)) = lead_window_size d
      then (case lead_window d of
              [] \<Rightarrow> Inl IndexError
            | oldest # rest \<Rightarrow>
                Inr (d\<lparr>lag_window := deque_append (lag_window_size d) (lag_window d) oldest,
                       lead_window := deque_append (lead_window_size d) rest datapoint\<rparr>))
      else Inr (d\<lparr>lead_window := deque_append (lead_window_size d) (lead_window d) datapoint\<rparr>))"

definition both_full :: "detector \<Rightarrow> bool" where
  "both_full d =
     (int (length (lead_window d)) = lead_window_size d
      \<and> int (length (lag_window d)) = lag_window_size d)"

text \<open>Lines 219 to 237: one detection cycle on the current windows.\<close>

definition cycle :: "(real \<Rightarrow> real) \<Rightarrow> detector \<Rightarrow> error + analysis" where
  "cycle ppf d =
     ebind (get_words ppf (lead_window d) (window_size d) (word_size d)) (\<lambda>lead_words.
     ebind (get_words ppf (lag_window d) (window_size d) (word_size d)) (\<lambda>lag_words.
     let lead_freqs = count_frequencies lead_words ''abcd'' (recursion_level d);
         lag_freqs = count_frequencies lag_words ''abcd'' (recursion_level d)
     in ebind (build_bitmap lead_freqs) (\<lambda>lead_bitmap.
        ebind (build_bitmap lag_freqs) (\<lambda>lag_bitmap.
        ebind (dist lead_bitmap lag_bitmap) (\<lambda>s.
        Inr \<lparr>score = s, bitmp1 = lead_bitmap, bitmp2 = lag_bitmap\<rparr>)))))"

text \<open>The loop of \<open>detect\<close>. An exception leaves the detector as it is at that moment
  and discards the results collected so far.\<close>

fun detect_loop ::
  "(real \<Rightarrow> real) \<Rightarrow> detector \<Rightarrow> real list \<Rightarrow> analysis list \<Rightarrow> detector \<times> (error + analysis list)" where
  "detect_loop ppf d [] analysis_result = (d, Inr analysis_result)"
| "detect_loop ppf d (datapoint # datapoints) analysis_result =
     (case shift d datapoint of
        Inl e \<Rightarrow> (d, Inl e)
      | Inr d' \<Rightarrow>
          if both_full d'
          then (case cycle ppf d' of
                  Inl e \<Rightarrow> (d', Inl e)
                | Inr a \<Rightarrow> detect_loop ppf d' datapoints (analysis_result @ [a]))
          else detect_loop ppf d' datapoints analysis_result)"

definition detect ::
  "(real \<Rightarrow> real) \<Rightarrow> detector \<Rightarrow> real list \<Rightarrow> timestamp \<Rightarrow> detector \<times> (error + analysis list)" where
  "detect ppf d datapoints timestamp' =
     detect_loop ppf (d\<lparr>last_timestamp := timestamp'\<rparr>) datapoints []"

text \<open>The window update alone, for one datapoint and for a list of datapoints: \<open>shift_all\<close>
  stops at the first exception; \<open>push\<close> leaves the detector as it is when \<open>shift\<close>
  raises, as the loop of \<open>detect\<close> does.\<close>

fun shift_all :: "detector \<Rightarrow> real list \<Rightarrow> error + detector" where
  "shift_all d [] = Inr d"
| "shift_all d (x # xs) = (case shift d x of Inl e \<Rightarrow> Inl e | Inr d' \<Rightarrow> shift_all d' xs)"

definition push :: "detector \<Rightarrow> real \<Rightarrow> detector" where
  "push d x = (case shift d x of Inl e \<Rightarrow> d | Inr d' \<Rightarrow> d')"

definition pushes :: "detector \<Rightarrow> real list \<Rightarrow> detector" where
  "pushes d xs = foldl push d xs"

text \<open>The invariant of the two bounded deques, the number of samples they hold, and the
  number they can hold.\<close>

definition within_capacity :: "detector \<Rightarrow> bool" where
  "within_capacity d =
     (int (length (lead_window d)) \<le> lead_window_size d
      \<and> int (length (lag_window d)) \<le> lag_window_size d)"

definition fill :: "detector \<Rightarrow> nat" where
  "fill d = length (lead_window d) + length (lag_window d)"

definition capacity :: "detector \<Rightarrow> nat" where
  "capacity d = nat (lead_window_size d + lag_window_size d)"


subsection \<open>Concrete inputs of the examples\<close>


text \<open>\<open>norm.ppf\<close> at the three quartiles that \<open>alphbt_size = 4\<close> asks for, to four
  decimals. The examples instantiate the parameter \<open>ppf\<close> with it.\<close>

definition ppf4 :: "real \<Rightarrow> real" where
  "ppf4 p = (if p < 1/2 then - 6745 / 10000 else if p = 1/2 then 0 else 6745 / 10000)"

text \<open>The detector \<open>AssumptionFreeAA(word_size=1, window_factor=2, lead_window_factor=1,
  lag_window_factor=1, recursion_level=1)\<close>: both windows hold two samples.\<close>

definition det22 :: detector where
  "det22 = \<lparr>window_factor = 2, window_size = 2,
             lead_window_factor = 1, lead_window_size = 2,
             lag_window_factor = 1, lag_window_size = 2,
             universe_size = 4, word_size = 1, recursion_level = 1,
             lead_window = [], lag_window = [], last_timestamp = 0\<rparr>"

text \<open>The detector \<open>AssumptionFreeAA(word_size=1, window_factor=1, lead_window_factor=0,
  lag_window_factor=1, recursion_level=1)\<close>, whose lead window has capacity 0.\<close>

definition det01 :: detector where
  "det01 = \<lparr>window_factor = 1, window_size = 1,
             lead_window_factor = 0, lead_window_size = 0,
             lag_window_factor = 1, lag_window_size = 1,
             universe_size = 1, word_size = 1, recursion_level = 1,
             lead_window = [], lag_window = [], last_timestamp = 0\<rparr>"

text \<open>The detector \<open>AssumptionFreeAA(word_size=2, window_factor=2, lead_window_factor=1,
  lag_window_factor=1, recursion_level=1)\<close>: both windows hold four samples, one slice.\<close>

definition det44 :: detector where
  "det44 = \<lparr>window_factor = 2, window_size = 4,
             lead_window_factor = 1, lead_window_size = 4,
             lag_window_factor = 1, lag_window_size = 4,
             universe_size = 8, word_size = 2, recursion_level = 1,
             lead_window = [], lag_window = [], last_timestamp = 0\<rparr>"

section \<open>Properties\<close>

subsection \<open>Combinations and frequency tables\<close>

lemma strings_over_iff: "w \<in> strings_over al n \<longleftrightarrow> length w = n \<and> set w \<subseteq> set al"
  by (auto simp: strings_over_def set_n_lists)

lemma strings_over_1: "(\<lambda>a. [a]) ` set al = strings_over al 1"
proof (rule set_eqI)
  fix w :: string
  show "w \<in> (\<lambda>a. [a]) ` set al \<longleftrightarrow> w \<in> strings_over al 1"
    by (cases w) (auto simp: strings_over_iff)
qed

lemma extend_strings:
  "(\<lambda>(a, c). c @ a) ` (((\<lambda>a. [a]) ` set al) \<times> strings_over al k) = strings_over al (Suc k)"
proof (rule set_eqI)
  fix w :: string
  show "w \<in> (\<lambda>(a, c). c @ a) ` (((\<lambda>a. [a]) ` set al) \<times> strings_over al k)
        \<longleftrightarrow> w \<in> strings_over al (Suc k)"
  proof
    assume "w \<in> (\<lambda>(a, c). c @ a) ` (((\<lambda>a. [a]) ` set al) \<times> strings_over al k)"
    then show "w \<in> strings_over al (Suc k)"
      by (auto simp: strings_over_iff)
  next
    assume w: "w \<in> strings_over al (Suc k)"
    then have "w \<noteq> []" by (auto simp: strings_over_iff)
    then have "w = butlast w @ [last w]" by simp
    moreover have "butlast w \<in> strings_over al k" "last w \<in> set al"
      using w \<open>w \<noteq> []\<close> by (auto simp: strings_over_iff dest: in_set_butlastD)
    ultimately show "w \<in> (\<lambda>(a, c). c @ a) ` (((\<lambda>a. [a]) ` set al) \<times> strings_over al k)"
      by (metis (no_types, lifting) SigmaI image_eqI old.prod.case)
  qed
qed

lemma extend_strings1:
  "(\<lambda>(a, c). c @ a) ` (strings_over al (Suc 0) \<times> strings_over al k) = strings_over al (Suc k)"
  using extend_strings[of al k] by (simp add: strings_over_1)

lemma strings_over_nonempty: "al \<noteq> [] \<Longrightarrow> strings_over al k \<noteq> {}"
proof -
  assume "al \<noteq> []"
  then have "replicate k (hd al) \<in> strings_over al k"
    by (auto simp: strings_over_iff)
  then show ?thesis by blast
qed

lemma strings_over_empty_alphabet: "0 < k \<Longrightarrow> strings_over [] k = {}"
  by (auto simp: strings_over_iff)

lemma build_combinations_extend:
  "al \<noteq> [] \<Longrightarrow> build_combinations al (strings_over al k) n = strings_over al (k + nat n)"
proof (induction "nat n" arbitrary: n k)
  case 0
  then show ?case
    by (subst build_combinations.simps) (simp add: strings_over_nonempty Let_def)
next
  case (Suc m)
  then have n: "0 < n" "m = nat (n - 1)" by auto
  have "build_combinations al (strings_over al k) n
        = build_combinations al (strings_over al (Suc k)) (n - 1)"
    using n Suc.prems
    by (subst build_combinations.simps) (simp add: strings_over_nonempty Let_def extend_strings)
  also have "\<dots> = strings_over al (Suc k + nat (n - 1))"
    using Suc.hyps(1)[OF n(2) Suc.prems] .
  also have "Suc k + nat (n - 1) = k + nat n"
    using n by simp
  finally show ?case .
qed

lemma build_combinations_no_alphabet: "build_combinations [] {} n = {}"
proof (induction "nat n" arbitrary: n rule: less_induct)
  case less
  show ?case
  proof (cases "n - 1 \<le> 0")
    case True
    then show ?thesis by (subst build_combinations.simps) simp
  next
    case False
    then have "nat (n - 2) < nat n" by simp
    from less[OF this] False show ?thesis
      by (subst build_combinations.simps) simp
  qed
qed

lemma build_combinations_eq:
  "build_combinations al {} n = strings_over al (nat (max 1 n))"
proof (cases "al = []")
  case True
  then show ?thesis
    by (simp add: build_combinations_no_alphabet strings_over_empty_alphabet)
next
  case False
  show ?thesis
  proof (cases "n - 1 \<le> 0")
    case True
    then have "nat (max 1 n) = 1" by simp
    with True show ?thesis
      by (subst build_combinations.simps) (simp add: strings_over_1)
  next
    case False
    have "build_combinations al {} n = build_combinations al (strings_over al (Suc 1)) (n - 2)"
      using False
      by (subst build_combinations.simps)
        (simp add: extend_strings1 strings_over_1 Let_def)
    also have "\<dots> = strings_over al (Suc 1 + nat (n - 2))"
      by (rule build_combinations_extend[OF \<open>al \<noteq> []\<close>])
    also have "Suc 1 + nat (n - 2) = nat (max 1 n)"
      using False by simp
    finally show ?thesis .
  qed
qed

lemma card_strings_over: "card (strings_over al n) = card (set al) ^ n"
proof -
  have "strings_over al n = {xs. set xs \<subseteq> set al \<and> length xs = n}"
    by (auto simp: strings_over_iff)
  then show ?thesis
    by (simp add: card_lists_length_eq)
qed

lemma finite_strings_over: "finite (strings_over al n)"
  by (simp add: strings_over_def)

lemma count_substr_card: "count_substr stack needle = card {i. occurs_at stack needle i}"
proof -
  let ?n = "nat (int (length stack) - int (length needle) + 1)"
  have "{i. i < length [0..<?n] \<and> take (length needle) (drop ([0..<?n] ! i) stack) = needle}
        = {i. occurs_at stack needle i}"
    by (auto simp: occurs_at_def)
  then show ?thesis
    unfolding count_substr_def by (simp only: length_filter_conv_card)
qed

lemma foldl_add_word:
  "foldl add_word fr words key
   = map_option (\<lambda>v. v + (\<Sum>w\<leftarrow>words. count_substr w key)) (fr key)"
proof (induction words arbitrary: fr)
  case Nil
  then show ?case by (simp add: option.map_ident)
next
  case (Cons w ws)
  have "foldl add_word fr (w # ws) key = foldl add_word (add_word fr w) ws key"
    by simp
  also have "\<dots> = map_option (\<lambda>v. v + (\<Sum>w\<leftarrow>ws. count_substr w key)) (add_word fr w key)"
    by (rule Cons.IH)
  also have "\<dots> = map_option (\<lambda>v. v + (\<Sum>w\<leftarrow>w # ws. count_substr w key)) (fr key)"
    by (cases "fr key") (simp_all add: add_word_def)
  finally show ?case .
qed

lemma count_frequencies_eq:
  "count_frequencies words al n key
   = (if key \<in> strings_over al (nat (max 1 n))
      then Some (\<Sum>w\<leftarrow>words. count_substr w key) else None)"
  by (simp add: count_frequencies_def foldl_add_word build_combinations_eq)

lemma dom_count_frequencies:
  "dom (count_frequencies words al n) = strings_over al (nat (max 1 n))"
  by (auto simp: count_frequencies_eq dom_def)

lemma count_frequencies_table:
  assumes "1 \<le> subword_len"
  shows "dom (count_frequencies words alphabet subword_len)
           = {w. length w = nat subword_len \<and> set w \<subseteq> set alphabet}
       \<and> card (dom (count_frequencies words alphabet subword_len))
           = card (set alphabet) ^ nat subword_len
       \<and> dom (count_frequencies words alphabet subword_len)
           = dom (count_frequencies words' alphabet subword_len)
       \<and> (\<forall>key \<in> dom (count_frequencies words alphabet subword_len).
             count_frequencies words alphabet subword_len key
               = Some (\<Sum>w\<leftarrow>words. card {i. occurs_at w key i}))"
proof -
  have m: "nat (max 1 subword_len) = nat subword_len"
    using assms by simp
  show ?thesis
    by (auto simp: dom_count_frequencies m card_strings_over strings_over_iff
        count_frequencies_eq count_substr_card)
qed

lemma count_substr_example: "count_substr ''aaaa'' ''aa'' = 3"
  by (simp add: count_substr_def eval_nat_numeral)

lemma abcd_level_0: "dom (count_frequencies words ''abcd'' 0) = {''a'', ''b'', ''c'', ''d''}"
  by (simp add: dom_count_frequencies strings_over_def)

subsection \<open>The bitmap builder\<close>

lemma matrix_side_unique:
  assumes "s * s \<le> n" "n < (s + 1) * (s + 1)"
  shows "matrix_side n = s"
proof -
  have iff: "x * x \<le> n \<longleftrightarrow> x \<le> s" for x
  proof
    assume x: "x * x \<le> n"
    show "x \<le> s"
    proof (rule ccontr)
      assume "\<not> x \<le> s"
      then have "s + 1 \<le> x" by simp
      then have "(s + 1) * (s + 1) \<le> x * x" by (intro mult_le_mono)
      with x assms(2) show False by simp
    qed
  next
    assume "x \<le> s"
    then have "x * x \<le> s * s" by (intro mult_le_mono)
    with assms(1) show "x * x \<le> n" by simp
  qed
  have "{x. x * x \<le> n} \<inter> {1..<n + 1} = {1..s}"
  proof (rule set_eqI)
    fix x :: nat
    have "x \<le> x * x" by (cases x) simp_all
    then have "x * x \<le> n \<Longrightarrow> x < n + 1" by linarith
    then have "x * x \<le> n \<and> 1 \<le> x \<and> x < n + 1 \<longleftrightarrow> 1 \<le> x \<and> x \<le> s"
      using iff[of x] by blast
    then show "x \<in> {x. x * x \<le> n} \<inter> {1..<n + 1} \<longleftrightarrow> x \<in> {1..s}"
      by (simp only: Int_iff mem_Collect_eq atLeastLessThan_iff atLeastAtMost_iff conj_assoc)
  qed
  then show ?thesis
    unfolding matrix_side_def by (simp only: distinct_length_filter distinct_upt set_upt card_atLeastAtMost)
qed

lemma matrix_side_square: "matrix_side (m * m) = m"
  by (rule matrix_side_unique) simp_all

lemma whole_sqrt_square: "whole_sqrt (m * m)"
  by (simp add: whole_sqrt_def matrix_side_square)

lemma whole_sqrt_iff: "whole_sqrt n \<longleftrightarrow> (\<exists>m. n = m * m)"
  by (metis whole_sqrt_def whole_sqrt_square)

lemma cell_index:
  assumes "b < (m::nat)"
  shows "a * m + b = t \<longleftrightarrow> a = t div m \<and> b = t mod m"
proof
  assume "a * m + b = t"
  with assms show "a = t div m \<and> b = t mod m" by auto
next
  assume "a = t div m \<and> b = t mod m"
  then show "a * m + b = t" by simp
qed

lemma cell_index_bound:
  assumes "a < (m::nat)" "b < m"
  shows "a * m + b < m * m"
proof -
  have "a * m + b < a * m + m" using assms by simp
  also have "\<dots> = (a + 1) * m" by simp
  also have "\<dots> \<le> m * m" using assms by (intro mult_le_mono) simp_all
  finally show ?thesis .
qed

lemma bitmap_loop_fills:
  assumes "0 < m" "card (dom fr) = m * m"
    and "t + length ks = m * m" "i = t div m" "j mod m = t mod m"
    and "length bm = m" "\<forall>a<m. length (bm ! a) = m"
  shows "\<exists>i' j' bm'. bitmap_loop fr mx (i, j, bm) ks = Inr (i', j', bm')
           \<and> length bm' = m \<and> (\<forall>a<m. length (bm' ! a) = m)
           \<and> (\<forall>a<m. \<forall>b<m. bm' ! a ! b =
                 (if t \<le> a * m + b then normalized fr mx (ks ! (a * m + b - t)) else bm ! a ! b))"
  using assms(3-)
proof (induction ks arbitrary: t i j bm)
  case Nil
  have "\<not> t \<le> a * m + b" if "a < m" "b < m" for a b
    using cell_index_bound[OF that] Nil.prems(1) by simp
  with Nil show ?case by simp
next
  case (Cons key ks)
  let ?j1 = "t mod m"
  let ?bm1 = "bm[i := (bm ! i)[?j1 := normalized fr mx key]]"
  let ?i1 = "if ?j1 + 1 = m then i + 1 else i"
  have t: "t < m * m" using Cons.prems(1) by simp
  then have i: "i < m" using Cons.prems(2) assms(1)
    by (simp add: less_mult_imp_div_less)
  have j1: "?j1 < m" using assms(1) by simp
  have step: "bitmap_step fr mx (i, j, bm) key = Inr (?i1, ?j1 + 1, ?bm1)"
    using i j1 assms(1,2) Cons.prems(3)
    by (simp add: bitmap_step_def matrix_side_square whole_sqrt_square Let_def)
  have p1: "Suc t + length ks = m * m" using Cons.prems(1) by simp
  have p2: "?i1 = Suc t div m"
    using Cons.prems(2) assms(1) by (auto simp: div_Suc mod_Suc)
  have p3: "(?j1 + 1) mod m = Suc t mod m"
    by (simp add: mod_Suc_eq)
  have p4: "length ?bm1 = m" using Cons.prems(4) by simp
  have p5: "\<forall>a<m. length (?bm1 ! a) = m"
  proof (intro allI impI)
    fix a assume "a < m"
    then show "length (?bm1 ! a) = m"
      using Cons.prems(4,5) by (cases "a = i") simp_all
  qed
  from Cons.IH[OF p1 p2 p3 p4 p5]
  obtain i' j' bm' where
    loop: "bitmap_loop fr mx (?i1, ?j1 + 1, ?bm1) ks = Inr (i', j', bm')"
    and len: "length bm' = m" "\<forall>a<m. length (bm' ! a) = m"
    and cells: "\<forall>a<m. \<forall>b<m. bm' ! a ! b =
                 (if Suc t \<le> a * m + b then normalized fr mx (ks ! (a * m + b - Suc t))
                  else ?bm1 ! a ! b)"
    by blast
  have "bm' ! a ! b =
          (if t \<le> a * m + b then normalized fr mx ((key # ks) ! (a * m + b - t)) else bm ! a ! b)"
    if ab: "a < m" "b < m" for a b
  proof (cases "a * m + b" t rule: linorder_cases)
    case less
    then have "\<not> (a = i \<and> b = ?j1)"
      using cell_index[OF ab(2), of a t] Cons.prems(2) by auto
    with less show ?thesis
      using cells ab Cons.prems(4,5) i by (auto simp: nth_list_update)
  next
    case equal
    then have "a = i" "b = ?j1"
      using cell_index[OF ab(2), of a t] Cons.prems(2) by auto
    with equal show ?thesis
      using cells ab Cons.prems(4,5) by (auto simp: nth_list_update)
  next
    case greater
    then have "(key # ks) ! (a * m + b - t) = ks ! (a * m + b - Suc t)"
      by (simp add: nth_Cons')
    with greater show ?thesis
      using cells ab by auto
  qed
  with loop len step show ?case by simp
qed

lemma zeros_shape: "length (zeros m) = m" "\<forall>a<m. length (zeros m ! a) = m"
  by (simp_all add: zeros_def)

lemma build_bitmap_square:
  assumes "finite (dom fr)" "dom fr \<noteq> {}" "card (dom fr) = m * m"
  shows "\<exists>bm. build_bitmap fr = Inr bm \<and> length bm = m \<and> (\<forall>a<m. length (bm ! a) = m)
           \<and> (\<forall>a<m. \<forall>b<m. bm ! a ! b =
                 normalized fr (Max (ran fr)) (sorted_list_of_set (dom fr) ! (a * m + b)))"
proof -
  have m: "0 < m"
    using assms by (cases m) auto
  have len: "0 + length (sorted_list_of_set (dom fr)) = m * m"
    using assms by simp
  from bitmap_loop_fills[OF m assms(3) len _ _ zeros_shape, of 0 0 "Max (ran fr)"]
  obtain i' j' bm' where
    "bitmap_loop fr (Max (ran fr)) (0, 0, zeros m) (sorted_list_of_set (dom fr)) = Inr (i', j', bm')"
    "length bm' = m" "\<forall>a<m. length (bm' ! a) = m"
    "\<forall>a<m. \<forall>b<m. bm' ! a ! b =
        normalized fr (Max (ran fr)) (sorted_list_of_set (dom fr) ! (a * m + b))"
    by auto
  then show ?thesis
    using assms(2,3) by (simp add: build_bitmap_def ebind_def matrix_side_square)
qed


lemma list2: "length xs = 2 \<Longrightarrow> xs = [xs ! 0, xs ! 1]"
  by (cases xs; cases "tl xs") (auto simp: numeral_2_eq_2)

subsection \<open>Lists that can raise, numpy arithmetic on finite values, sections\<close>


lemma traverse_first_error:
  "xs \<noteq> [] \<Longrightarrow> f (hd xs) = Inl e \<Longrightarrow> traverse f xs = Inl e"
  by (cases xs) simp_all

lemma traverse_Inr_length: "traverse f xs = Inr ys \<Longrightarrow> length ys = length xs"
  by (induction xs arbitrary: ys) (auto split: sum.splits)

lemma traverse_Inr_nth:
  "traverse f xs = Inr ys \<Longrightarrow> i < length xs \<Longrightarrow> f (xs ! i) = Inr (ys ! i)"
proof (induction xs arbitrary: ys i)
  case Nil
  then show ?case by simp
next
  case (Cons x xs)
  then show ?case
    by (cases i) (auto split: sum.splits)
qed

lemma traverse_Inl:
  "traverse f xs = Inl e \<Longrightarrow> \<exists>x \<in> set xs. f x = Inl e"
  by (induction xs) (auto split: sum.splits)

lemma foldl_np_add_Fin: "foldl np_add (Fin a) (map Fin xs) = Fin (a + sum_list xs)"
  by (induction xs arbitrary: a) (simp_all add: add.assoc)

lemma np_sum_Fin: "np_sum (map Fin xs) = Fin (sum_list xs)"
  by (simp add: np_sum_def foldl_np_add_Fin)

lemma np_mean_Fin: "xs \<noteq> [] \<Longrightarrow> np_mean (map Fin xs) = Fin (mean_of xs)"
  by (simp add: np_mean_def np_sum_Fin mean_of_def)

lemma foldl_np_add_NaN: "foldl np_add NaN xs = NaN"
  by (induction xs) simp_all

lemma np_add_NaN_right: "np_add x NaN = NaN"
  by (cases x) simp_all

lemma np_mean_NaN: "np_mean (replicate k NaN) = NaN"
proof (cases k)
  case 0
  then show ?thesis by (simp add: np_mean_def np_sum_def inf_of_sign_def)
next
  case (Suc n)
  then show ?thesis
    by (simp add: np_mean_def np_sum_def foldl_np_add_NaN)
qed

lemma centred_Fin:
  "data \<noteq> [] \<Longrightarrow>
   map (\<lambda>x. np_sub (Fin x) (np_mean (map Fin data))) data
   = map Fin (map (\<lambda>x. x - mean_of data) data)"
  by (simp add: np_mean_Fin np_sub_def)

lemma mean_of_centred: "xs \<noteq> [] \<Longrightarrow> mean_of (map (\<lambda>x. x - mean_of xs) xs) = 0"
  by (simp add: mean_of_def sum_list_subtractf sum_list_triv)

lemma mean_of_squares_nonneg: "0 \<le> mean_of (map (\<lambda>x. (x - m) * (x - m)) xs)"
  unfolding mean_of_def by (intro divide_nonneg_nonneg sum_list_nonneg) auto

lemma np_std_Fin: "ys \<noteq> [] \<Longrightarrow> np_std (map Fin ys) = Fin (std_of ys)"
proof -
  assume ys: "ys \<noteq> []"
  let ?sq = "map (\<lambda>x. (x - mean_of ys) * (x - mean_of ys)) ys"
  have e1: "np_mean (map Fin ys) = Fin (mean_of ys)"
    using ys by (rule np_mean_Fin)
  have e2: "map (\<lambda>x. np_mul (np_sub x (Fin (mean_of ys))) (np_sub x (Fin (mean_of ys)))) (map Fin ys)
        = map Fin ?sq"
    by (simp add: np_sub_def)
  have e3: "np_mean (map Fin ?sq) = Fin (mean_of ?sq)"
    using ys by (intro np_mean_Fin) simp
  have "np_sqrt (Fin (mean_of ?sq)) = Fin (sqrt (mean_of ?sq))"
    using mean_of_squares_nonneg[of "mean_of ys" ys] by simp
  then show ?thesis
    unfolding np_std_def e1 e2 e3 std_of_def .
qed

lemma std_of_centred: "xs \<noteq> [] \<Longrightarrow> std_of (map (\<lambda>x. x - mean_of xs) xs) = std_of xs"
  by (simp add: std_of_def mean_of_centred) (simp add: mean_of_def comp_def)

lemma scale_factor_eq:
  assumes "data \<noteq> []"
  shows "scale_factor data = np_div (Fin 1) (Fin (std_of data))"
proof -
  have "np_std (map Fin (map (\<lambda>x. x - mean_of data) data)) = Fin (std_of data)"
    using assms by (simp only: np_std_Fin map_is_Nil_conv std_of_centred not_False_eq_True)
  then show ?thesis
    unfolding scale_factor_def centred_Fin[OF assms] by (simp only:)
qed


lemma std_of_zero_all_mean:
  assumes "data \<noteq> []" "std_of data = 0" "x \<in> set data"
  shows "x = mean_of data"
proof -
  let ?sq = "map (\<lambda>x. (x - mean_of data) * (x - mean_of data)) data"
  have "mean_of ?sq = 0"
    using assms(2) by (simp add: std_of_def)
  then have "sum_list ?sq = 0"
    using assms(1) by (simp add: mean_of_def)
  moreover have "\<And>y. y \<in> set ?sq \<Longrightarrow> 0 \<le> y" by auto
  ultimately have "\<forall>y\<in>set ?sq. y = 0"
    by (simp only: sum_list_nonneg_eq_0_iff)
  with assms(3) have "(x - mean_of data) * (x - mean_of data) = 0" by simp
  then show ?thesis by simp
qed

lemma standardize_degenerate:
  assumes "data \<noteq> []" "std_of data = 0"
  shows "standardize data = replicate (length data) NaN"
proof -
  have "np_mul (np_sub (Fin x) (np_mean (map Fin data))) (scale_factor data) = NaN"
    if "x \<in> set data" for x
    using std_of_zero_all_mean[OF assms that] assms
    by (simp add: scale_factor_eq np_mean_Fin np_sub_def inf_of_sign_def)
  then have "standardize data = map (\<lambda>x. NaN) data"
    unfolding standardize_def by (simp add: map_eq_conv)
  then show ?thesis by (simp add: map_replicate_const)
qed

lemma linspace_length:
  "0 \<le> num \<Longrightarrow> \<exists>pts. linspace start stop num = Inr pts \<and> length pts = nat num"
  by (auto simp: linspace_def)

lemma breakpoints_ok:
  assumes "1 \<le> a"
  shows "\<exists>bps. breakpoints ppf a = Inr bps \<and> length bps = nat a \<and> last bps = PInf
           \<and> (\<forall>i<length bps. bps ! i \<noteq> NaN \<and> bps ! i \<noteq> NInf)"
proof -
  from assms have "0 \<le> a - 1" by simp
  from linspace_length[OF this] obtain pts where
    pts: "linspace (1 / real_of_int a) (1 - 1 / real_of_int a) (a - 1) = Inr pts"
      "length pts = nat (a - 1)"
    by blast
  let ?bps = "map (\<lambda>p. Fin (ppf p)) pts @ [PInf]"
  have "breakpoints ppf a = Inr ?bps"
    using assms pts(1) by (simp add: breakpoints_def ebind_def)
  moreover have "length ?bps = nat a"
    using assms pts(2) by simp
  moreover have "?bps ! i \<noteq> NaN \<and> ?bps ! i \<noteq> NInf" if "i < length ?bps" for i
    using that by (cases "i < length pts") (auto simp: nth_append)
  ultimately show ?thesis by auto
qed


lemma first_index_none: "(\<And>x. x \<in> set xs \<Longrightarrow> \<not> p x) \<Longrightarrow> first_index p xs = Inl IndexError"
  by (induction xs) simp_all

lemma first_index_error: "first_index p xs = Inl e \<Longrightarrow> e = IndexError"
  by (induction xs) (auto split: if_splits sum.splits)


lemma np_gt_NaN: "\<not> np_gt b NaN"
  by (cases b) simp_all

lemma split_sizes_length: "length (split_sizes ss xs) = length ss"
  by (induction ss arbitrary: xs) simp_all

lemma split_sizes_concat: "concat (split_sizes ss xs) = take (sum_list ss) xs"
proof (induction ss arbitrary: xs)
  case Nil
  then show ?case by simp
next
  case (Cons s ss)
  show ?case
    by (simp add: Cons.IH take_add)
qed

lemma split_sizes_nth_length:
  "sum_list ss \<le> length xs \<Longrightarrow> k < length ss \<Longrightarrow> length (split_sizes ss xs ! k) = ss ! k"
proof (induction ss arbitrary: xs k)
  case Nil
  then show ?case by simp
next
  case (Cons s ss)
  then show ?case by (cases k) auto
qed


lemma split_sizes_replicate:
  "x \<in> set (split_sizes ss (replicate n v)) \<Longrightarrow> \<exists>k. x = replicate k v"
proof (induction ss arbitrary: n)
  case Nil
  then show ?case by simp
next
  case (Cons s ss)
  then show ?case by auto
qed

lemma section_sizes_props:
  assumes "0 < n"
  shows "length (section_sizes len n) = n" "sum_list (section_sizes len n) = len"
    "\<forall>s \<in> set (section_sizes len n). s = len div n \<or> s = len div n + 1"
proof -
  have r: "len mod n < n" using assms by simp
  then show "length (section_sizes len n) = n"
    by (simp add: section_sizes_def)
  have "sum_list (section_sizes len n) = (len mod n) * (len div n + 1) + (n - len mod n) * (len div n)"
    by (simp add: section_sizes_def sum_list_replicate)
  also have "\<dots> = (len mod n + (n - len mod n)) * (len div n) + len mod n"
    by (simp add: algebra_simps)
  also have "\<dots> = n * (len div n) + len mod n"
    using r by simp
  also have "\<dots> = len" by simp
  finally show "sum_list (section_sizes len n) = len" .
  show "\<forall>s \<in> set (section_sizes len n). s = len div n \<or> s = len div n + 1"
    by (auto simp: section_sizes_def)
qed

lemma array_split_ok:
  assumes "1 \<le> w"
  shows "\<exists>sections. array_split xs w = Inr sections \<and> length sections = nat w
           \<and> concat sections = xs
           \<and> (\<forall>k<nat w. length (sections ! k) = length xs div nat w
                          \<or> length (sections ! k) = length xs div nat w + 1)"
proof -
  let ?ss = "section_sizes (length xs) (nat w)"
  have n: "0 < nat w" using assms by simp
  note p = section_sizes_props[OF n, of "length xs"]
  have "length (split_sizes ?ss xs ! k) = length xs div nat w
        \<or> length (split_sizes ?ss xs ! k) = length xs div nat w + 1" if "k < nat w" for k
  proof -
    have "length (split_sizes ?ss xs ! k) = ?ss ! k"
      using p(1,2) that by (intro split_sizes_nth_length) simp_all
    moreover have "?ss ! k \<in> set ?ss"
      using p(1) that by (intro nth_mem) simp
    ultimately show ?thesis using p(3) by auto
  qed
  then show ?thesis
    using assms p(1,2) by (simp add: array_split_def split_sizes_length split_sizes_concat)
qed


lemma letter_error: "letter i = Inl e \<Longrightarrow> e = IndexError"
  by (auto simp: letter_def split: if_splits)

subsection \<open>SAX encoding\<close>




lemma sax_degenerate:
  assumes "data \<noteq> []" "std_of data = 0" "1 \<le> a" "1 \<le> w"
  shows "sax ppf data a w = Inl IndexError"
proof -
  from breakpoints_ok[OF assms(3), of ppf] obtain bps where
    bps: "breakpoints ppf a = Inr bps" by blast
  from array_split_ok[OF assms(4), of "standardize data"] obtain secs where
    secs: "array_split (standardize data) w = Inr secs" "length secs = nat w"
    by blast
  have ne: "secs \<noteq> []" using secs(2) assms(4) by auto
  have "hd secs \<in> set (split_sizes (section_sizes (length data) (nat w)) (replicate (length data) NaN))"
    using secs(1) ne assms(4)
    by (auto simp: array_split_def standardize_degenerate[OF assms(1,2)])
  then obtain k where "hd secs = replicate k NaN"
    by (blast dest: split_sizes_replicate)
  then have "np_mean (hd secs) = NaN" by (simp add: np_mean_NaN)
  then have "first_index (\<lambda>b. np_gt b (hd (map np_mean secs))) bps = Inl IndexError"
    using ne by (simp add: hd_map first_index_none np_gt_NaN)
  then have "traverse (\<lambda>section_mean. first_index (\<lambda>b. np_gt b section_mean) bps) (map np_mean secs)
      = Inl IndexError"
    using ne by (intro traverse_first_error) simp_all
  then show ?thesis
    unfolding sax_def Let_def bps secs(1) ebind_def by simp
qed

lemma breakpoints_error: "breakpoints ppf a = Inl e \<Longrightarrow> e = ZeroDivisionError \<or> e = ValueError"
  by (auto simp: breakpoints_def linspace_def ebind_def split: if_splits)

lemma sax_error_kinds:
  assumes "sax ppf data a w = Inl e"
  shows "e = ZeroDivisionError \<or> e = ValueError \<or> e = IndexError"
proof (cases "breakpoints ppf a")
  case (Inl e')
  with assms have "e = e'" by (simp add: sax_def ebind_def)
  with Inl show ?thesis by (auto dest: breakpoints_error)
next
  case bps: (Inr bps)
  show ?thesis
  proof (cases "array_split (standardize data) w")
    case (Inl e')
    with assms bps have "e = e'" by (simp add: sax_def ebind_def)
    with Inl show ?thesis by (auto simp: array_split_def split: if_splits)
  next
    case secs: (Inr secs)
    show ?thesis
    proof (cases "traverse (\<lambda>section_mean. first_index (\<lambda>b. np_gt b section_mean) bps)
                    (map np_mean secs)")
      case (Inl e')
      with assms bps secs have "e = e'" by (simp add: sax_def ebind_def)
      with Inl show ?thesis by (auto dest!: traverse_Inl first_index_error)
    next
      case (Inr locs)
      with assms bps secs have "traverse letter locs = Inl e"
        by (simp add: sax_def ebind_def)
      then show ?thesis by (auto dest!: traverse_Inl letter_error)
    qed
  qed
qed

text \<open>Evaluation of \<open>_sax\<close> on concrete subsequences.\<close>

lemmas sax_eval =
  sax_def standardize_def scale_factor_def np_mean_def np_sum_def np_std_def np_sub_def
  breakpoints_def linspace_def ebind_def array_split_def section_sizes_def letter_def
  ascii_letters_def inf_of_sign_def ppf4_def eval_nat_numeral


lemma sax_1_3: "sax ppf4 [1, 3] 4 1 = Inr ''c''"
  by (simp add: sax_eval)

lemma sax_2_6: "sax ppf4 [2, 6] 4 1 = Inr ''c''"
  by (simp add: sax_eval)

lemma sax_5_5: "sax ppf4 [5, 5] 4 1 = Inl IndexError"
  by (rule sax_degenerate) (simp_all add: std_of_def mean_of_def)

text \<open>\<open>_get_words\<close> on a window whose length is divisible, and the alignment error.\<close>

lemma islice_chunk: "islice xs (i * n) ((i + 1) * n) = take n (drop (i * n) xs)"
  by (simp add: islice_def)

lemma islice_chunk': "islice xs (i * n) (n + i * n) = take n (drop (i * n) xs)"
  by (simp add: islice_def)

lemma get_words_divisible:
  assumes "0 < fs" "fs dvd int (length window)"
  shows "get_words ppf window fs w =
           traverse (\<lambda>i. sax ppf (take (nat fs) (drop (i * nat fs) window)) 4 w)
             [0..<length window div nat fs]"
proof -
  have "int (length window) mod fs = 0"
    using assms(2) by (simp add: dvd_eq_mod_eq_0)
  moreover have "nat (int (length window) div fs) = length window div nat fs"
    using assms(1) by (simp add: nat_div_distrib)
  ultimately show ?thesis
    using assms(1) by (simp add: get_words_def islice_chunk islice_chunk')
qed

lemma traverse_sax_not_plain:
  "traverse (\<lambda>i. sax ppf (f i) a w) xs \<noteq> Inl Exception"
proof
  assume "traverse (\<lambda>i. sax ppf (f i) a w) xs = Inl Exception"
  then obtain x where "sax ppf (f x) a w = Inl Exception"
    by (blast dest: traverse_Inl)
  then show False
    by (auto dest: sax_error_kinds)
qed

lemma get_words_alignment:
  assumes "fs \<noteq> 0"
  shows "get_words ppf window fs w = Inl Exception \<longleftrightarrow> \<not> fs dvd int (length window)"
proof (cases "int (length window) mod fs = 0")
  case True
  then have "fs dvd int (length window)" by (simp add: dvd_eq_mod_eq_0)
  moreover have "get_words ppf window fs w \<noteq> Inl Exception"
    using assms True by (simp add: get_words_def traverse_sax_not_plain)
  ultimately show ?thesis by simp
next
  case False
  then have "\<not> fs dvd int (length window)" by (simp add: dvd_eq_mod_eq_0)
  moreover have "get_words ppf window fs w = Inl Exception"
    using assms False by (simp add: get_words_def)
  ultimately show ?thesis by simp
qed

subsection \<open>The two windows\<close>

lemma shift_fields:
  assumes "shift d x = Inr d'"
  shows "lead_window_size d' = lead_window_size d" "lag_window_size d' = lag_window_size d"
    "window_size d' = window_size d" "word_size d' = word_size d"
    "recursion_level d' = recursion_level d" "last_timestamp d' = last_timestamp d"
    "lead_window_factor d' = lead_window_factor d" "lag_window_factor d' = lag_window_factor d"
  using assms by (auto simp: shift_def split: if_splits list.splits)

lemma shift_total:
  assumes "0 < lead_window_size d"
  shows "\<exists>d'. shift d x = Inr d'"
  using assms by (auto simp: shift_def split: list.splits)

lemma shift_fails: "shift d x = Inl e \<Longrightarrow> e = IndexError \<and> lead_window_size d = 0"
  by (auto simp: shift_def split: if_splits list.splits)

lemma shift_push: "shift d x = Inr d' \<Longrightarrow> push d x = d'"
  by (simp add: push_def)

lemma shift_push_total: "0 < lead_window_size d \<Longrightarrow> shift d x = Inr (push d x)"
  using shift_total[of d x] by (auto simp: push_def)

lemma push_fields:
  "lead_window_size (push d x) = lead_window_size d" "lag_window_size (push d x) = lag_window_size d"
  "window_size (push d x) = window_size d" "word_size (push d x) = word_size d"
  "recursion_level (push d x) = recursion_level d" "last_timestamp (push d x) = last_timestamp d"
  "lead_window_factor (push d x) = lead_window_factor d"
  "lag_window_factor (push d x) = lag_window_factor d"
  by (cases "shift d x"; simp add: push_def shift_fields)+

lemma pushes_fields:
  "lead_window_size (pushes d xs) = lead_window_size d" "lag_window_size (pushes d xs) = lag_window_size d"
  "window_size (pushes d xs) = window_size d" "word_size (pushes d xs) = word_size d"
  "recursion_level (pushes d xs) = recursion_level d" "last_timestamp (pushes d xs) = last_timestamp d"
  "lead_window_factor (pushes d xs) = lead_window_factor d"
  "lag_window_factor (pushes d xs) = lag_window_factor d"
  unfolding pushes_def by (induction xs arbitrary: d; simp add: push_fields)+

lemma pushes_Nil: "pushes d [] = d"
  by (simp add: pushes_def)

lemma pushes_Cons: "pushes d (x # xs) = pushes (push d x) xs"
  by (simp add: pushes_def)

lemma pushes_snoc: "pushes d (xs @ [x]) = push (pushes d xs) x"
  by (simp add: pushes_def)

lemma capacity_push: "capacity (push d x) = capacity d"
  by (simp add: capacity_def push_fields)

lemma capacity_pushes: "capacity (pushes d xs) = capacity d"
  by (simp add: capacity_def pushes_fields)

text \<open>The step on the windows, in the two cases of the source.\<close>

lemma shift_not_full:
  assumes "int (length (lead_window d)) < lead_window_size d"
  shows "shift d x = Inr (d\<lparr>lead_window := lead_window d @ [x]\<rparr>)"
  using assms by (simp add: shift_def deque_append_def)

lemma shift_full:
  assumes "int (length (lead_window d)) = lead_window_size d" "0 < lead_window_size d"
  shows "shift d x =
           Inr (d\<lparr>lag_window := drop (nat (int (length (lag_window d)) + 1 - lag_window_size d))
                                  (lag_window d @ [hd (lead_window d)]),
                  lead_window := tl (lead_window d) @ [x]\<rparr>)"
proof -
  from assms obtain oldest rest where l: "lead_window d = oldest # rest"
    by (cases "lead_window d") auto
  then have "nat (int (length rest) + 1 - lead_window_size d) = 0"
    using assms(1) by simp
  with l show ?thesis
    using assms(1) by (simp add: shift_def deque_append_def)
qed

lemma deque_length:
  assumes "int (length xs) \<le> m"
  shows "length (drop (nat (int (length xs) + 1 - m)) (xs @ [x])) = min (length xs + 1) (nat m)"
proof -
  have "length (drop (nat (int (length xs) + 1 - m)) (xs @ [x]))
        = length xs + 1 - nat (int (length xs) + 1 - m)"
    by (simp only: length_drop length_append) simp
  also have "\<dots> = min (length xs + 1) (nat m)"
    using assms by (cases "int (length xs) = m") (auto simp: min_def)
  finally show ?thesis .
qed

lemma within_capacity_shift:
  assumes "within_capacity d" "shift d x = Inr d'"
  shows "within_capacity d'"
proof (cases "int (length (lead_window d)) = lead_window_size d")
  case True
  with assms(2) have pos: "0 < lead_window_size d"
    by (cases "lead_window d") (auto simp: shift_def)
  have "lead_window d \<noteq> []" using True pos by auto
  then have "length (tl (lead_window d) @ [x]) = length (lead_window d)" by simp
  moreover have "int (length (lag_window d)) \<le> lag_window_size d"
    using assms(1) by (simp add: within_capacity_def)
  note deque_length[OF this, of "hd (lead_window d)"]
  ultimately show ?thesis
    using shift_full[OF True pos, of x] assms True
    by (auto simp: within_capacity_def simp del: length_append length_tl drop_append length_drop)
next
  case False
  with assms(1) have "int (length (lead_window d)) < lead_window_size d"
    by (simp add: within_capacity_def)
  from shift_not_full[OF this, of x] assms this show ?thesis
    by (auto simp: within_capacity_def)
qed

lemma within_capacity_push: "within_capacity d \<Longrightarrow> within_capacity (push d x)"
  by (cases "shift d x") (auto simp: push_def within_capacity_shift)

lemma within_capacity_pushes: "within_capacity d \<Longrightarrow> within_capacity (pushes d xs)"
  unfolding pushes_def by (induction xs arbitrary: d) (simp_all add: within_capacity_push)

lemma fill_push:
  assumes "within_capacity d" "0 < lead_window_size d"
  shows "fill (push d x) = min (fill d + 1) (capacity d)"
proof (cases "int (length (lead_window d)) = lead_window_size d")
  case True
  from shift_full[OF True assms(2), of x]
  have p: "push d x = d\<lparr>lag_window := drop (nat (int (length (lag_window d)) + 1 - lag_window_size d))
                                  (lag_window d @ [hd (lead_window d)]),
                  lead_window := tl (lead_window d) @ [x]\<rparr>"
    by (rule shift_push)
  have "lead_window d \<noteq> []" using True assms(2) by auto
  then have "length (tl (lead_window d) @ [x]) = length (lead_window d)" by simp
  moreover have "int (length (lag_window d)) \<le> lag_window_size d"
    using assms(1) by (simp add: within_capacity_def)
  note deque_length[OF this, of "hd (lead_window d)"]
  ultimately show ?thesis
    using True assms unfolding p
    by (auto simp: fill_def capacity_def within_capacity_def min_def
        simp del: length_append length_tl drop_append length_drop)
next
  case False
  with assms(1) have lt: "int (length (lead_window d)) < lead_window_size d"
    by (simp add: within_capacity_def)
  from shift_not_full[OF lt, of x] have "push d x = d\<lparr>lead_window := lead_window d @ [x]\<rparr>"
    by (rule shift_push)
  then show ?thesis
    using lt assms by (auto simp: fill_def capacity_def within_capacity_def min_def)
qed

lemma fill_pushes:
  assumes "within_capacity d" "0 < lead_window_size d"
  shows "fill (pushes d xs) = min (fill d + length xs) (capacity d)"
  using assms
proof (induction xs arbitrary: d)
  case Nil
  then show ?case
    by (auto simp: pushes_Nil fill_def capacity_def within_capacity_def)
next
  case (Cons x xs)
  have "fill (pushes (push d x) xs) = min (fill (push d x) + length xs) (capacity (push d x))"
    using Cons.prems by (intro Cons.IH) (simp_all add: within_capacity_push push_fields)
  then show ?case
    using fill_push[OF Cons.prems, of x] by (simp add: pushes_Cons capacity_push min_def)
qed

lemma both_full_iff:
  assumes "within_capacity d"
  shows "both_full d \<longleftrightarrow> fill d = capacity d"
  using assms by (auto simp: both_full_def fill_def capacity_def within_capacity_def)

subsection \<open>The loop of \<open>detect\<close>\<close>

lemma upt_from_0: "[0..<Suc n] = 0 # map Suc [0..<n]"
  by (simp add: upt_conv_Cons map_Suc_upt del: upt_Suc)

lemma upt_from_Suc: "[Suc k..<Suc n] = map Suc [k..<n]"
  by (simp add: map_Suc_upt)

lemma traverse_map_arg: "traverse f (map g xs) = traverse (\<lambda>x. f (g x)) xs"
  by (induction xs) (simp_all split: sum.splits)

lemma map_upt_0: "map f [0..<Suc n] = f 0 # map (\<lambda>i. f (Suc i)) [0..<n]"
  by (simp add: upt_from_0 comp_def del: upt_Suc)

lemma map_upt_Suc: "map f [Suc k..<Suc n] = map (\<lambda>i. f (Suc i)) [k..<n]"
  by (simp add: upt_from_Suc comp_def del: upt_Suc)

lemma detect_loop_results:
  assumes "within_capacity d" "0 < lead_window_size d"
  shows "snd (detect_loop ppf d xs acc) =
           (case traverse (cycle ppf)
                   (map (\<lambda>i. pushes d (take (Suc i) xs)) [capacity d - 1 - fill d..<length xs]) of
              Inl e \<Rightarrow> Inl e
            | Inr rs \<Rightarrow> Inr (acc @ rs))"
  using assms
proof (induction xs arbitrary: d acc)
  case Nil
  then show ?case by simp
next
  case (Cons x xs)
  let ?d = "push d x"
  have sh: "shift d x = Inr ?d"
    using Cons.prems(2) by (rule shift_push_total)
  have wc: "within_capacity ?d" "0 < lead_window_size ?d"
    using Cons.prems by (simp_all add: within_capacity_push push_fields)
  have cap: "capacity ?d = capacity d" by (rule capacity_push)
  have fl: "fill ?d = min (fill d + 1) (capacity d)"
    using Cons.prems by (rule fill_push)
  note IH = Cons.IH[OF wc]
  have rest: "(\<lambda>i. pushes d (take (Suc (Suc i)) (x # xs))) = (\<lambda>i. pushes ?d (take (Suc i) xs))"
    by (simp add: pushes_Cons)
  show ?case
  proof (cases "both_full ?d")
    case True
    then have "fill ?d = capacity d"
      using both_full_iff[OF wc(1)] cap by simp
    with fl have k: "capacity d - 1 - fill d = 0" "capacity ?d - 1 - fill ?d = 0"
      using cap by (simp_all add: min_def split: if_splits)
    have first: "pushes d (take (Suc 0) (x # xs)) = ?d"
      by (simp add: pushes_Cons pushes_Nil)
    have states: "map (\<lambda>i. pushes d (take (Suc i) (x # xs))) [capacity d - 1 - fill d..<length (x # xs)]
        = ?d # map (\<lambda>i. pushes ?d (take (Suc i) xs)) [capacity ?d - 1 - fill ?d..<length xs]"
      by (simp only: k length_Cons map_upt_0 first rest)
    have loop: "detect_loop ppf d (x # xs) acc
        = (case cycle ppf ?d of Inl e \<Rightarrow> (?d, Inl e)
           | Inr a \<Rightarrow> detect_loop ppf ?d xs (acc @ [a]))"
      using sh True by simp
    show ?thesis
    proof (cases "cycle ppf ?d")
      case (Inl e)
      then show ?thesis
        unfolding states loop by simp
    next
      case (Inr a)
      then show ?thesis
        unfolding states loop using IH[of "acc @ [a]"] by (simp split: sum.splits)
    qed
  next
    case False
    then have "fill ?d \<noteq> capacity d"
      using both_full_iff[OF wc(1)] cap by simp
    with fl have "fill d + 1 < capacity d" "fill ?d = fill d + 1"
      by (simp_all add: min_def split: if_splits)
    then have k: "capacity d - 1 - fill d = Suc (capacity ?d - 1 - fill ?d)"
      using cap by simp
    have states: "map (\<lambda>i. pushes d (take (Suc i) (x # xs))) [capacity d - 1 - fill d..<length (x # xs)]
        = map (\<lambda>i. pushes ?d (take (Suc i) xs)) [capacity ?d - 1 - fill ?d..<length xs]"
      by (simp only: k length_Cons map_upt_Suc rest)
    have loop: "detect_loop ppf d (x # xs) acc = detect_loop ppf ?d xs acc"
      using sh False by simp
    show ?thesis
      unfolding states loop by (rule IH)
  qed
qed

lemma detect_loop_success_state:
  "snd (detect_loop ppf d xs acc) = Inr rs \<Longrightarrow> fst (detect_loop ppf d xs acc) = pushes d xs"
proof (induction xs arbitrary: d acc)
  case Nil
  then show ?case by (simp add: pushes_Nil)
next
  case (Cons x xs)
  then show ?case
    by (auto simp: pushes_Cons push_def split: sum.splits if_splits)
qed

lemma detect_loop_error_state:
  "snd (detect_loop ppf d xs acc) = Inl e \<Longrightarrow>
   \<exists>n<length xs. fst (detect_loop ppf d xs acc) = pushes d (take (Suc n) xs)
     \<and> (shift (pushes d (take n xs)) (xs ! n) = Inl e
        \<or> both_full (pushes d (take (Suc n) xs)) \<and> cycle ppf (pushes d (take (Suc n) xs)) = Inl e)"
proof (induction xs arbitrary: d acc)
  case Nil
  then show ?case by simp
next
  case (Cons x xs)
  show ?case
  proof (cases "shift d x")
    case (Inl e')
    with Cons.prems have "e' = e" "fst (detect_loop ppf d (x # xs) acc) = d" by simp_all
    with Inl show ?thesis
      by (intro exI[of _ 0]) (simp add: pushes_Cons pushes_Nil push_def)
  next
    case (Inr d')
    then have p: "push d x = d'" by (rule shift_push)
    show ?thesis
    proof (cases "both_full d' \<and> (\<exists>e'. cycle ppf d' = Inl e')")
      case True
      then obtain e' where c: "both_full d'" "cycle ppf d' = Inl e'" by blast
      with Inr Cons.prems have "e' = e" "fst (detect_loop ppf d (x # xs) acc) = d'" by simp_all
      with c p show ?thesis
        by (intro exI[of _ 0]) (simp add: pushes_Cons pushes_Nil)
    next
      case False
      have "\<exists>acc'. detect_loop ppf d (x # xs) acc = detect_loop ppf d' xs acc'"
      proof (cases "both_full d'")
        case full: True
        with False obtain a where "cycle ppf d' = Inr a"
          by (cases "cycle ppf d'") auto
        with full Inr show ?thesis by auto
      next
        case False
        with Inr show ?thesis by auto
      qed
      then obtain acc' where
        l: "detect_loop ppf d (x # xs) acc = detect_loop ppf d' xs acc'"
        by blast
      with Cons.prems have "snd (detect_loop ppf d' xs acc') = Inl e" by simp
      from Cons.IH[OF this] obtain n where
        n: "n < length xs" "fst (detect_loop ppf d' xs acc') = pushes d' (take (Suc n) xs)"
          "shift (pushes d' (take n xs)) (xs ! n) = Inl e
           \<or> both_full (pushes d' (take (Suc n) xs)) \<and> cycle ppf (pushes d' (take (Suc n) xs)) = Inl e"
        by blast
      then show ?thesis
        unfolding l by (intro exI[of _ "Suc n"]) (simp add: pushes_Cons p)
    qed
  qed
qed

lemma detect_loop_timestamp:
  "last_timestamp (fst (detect_loop ppf d xs acc)) = last_timestamp d"
proof (induction xs arbitrary: d acc)
  case Nil
  then show ?case by simp
next
  case (Cons x xs)
  then show ?case
    by (auto simp: shift_fields split: sum.splits)
qed

subsection \<open>The windows as a function of the samples ingested\<close>

lemma shift_all_pushes: "shift_all d xs = Inr d' \<Longrightarrow> d' = pushes d xs"
proof (induction xs arbitrary: d)
  case Nil
  then show ?case by (simp add: pushes_Nil)
next
  case (Cons x xs)
  then show ?case
    by (auto simp: pushes_Cons push_def split: sum.splits)
qed

lemma shift_all_total: "0 < lead_window_size d \<Longrightarrow> shift_all d xs = Inr (pushes d xs)"
proof (induction xs arbitrary: d)
  case Nil
  then show ?case by (simp add: pushes_Nil)
next
  case (Cons x xs)
  have "shift_all (push d x) xs = Inr (pushes (push d x) xs)"
    using Cons.prems by (intro Cons.IH) (simp add: push_fields)
  then show ?case
    using shift_push_total[OF Cons.prems, of x] by (simp add: pushes_Cons)
qed

lemma shift_all_positive:
  "shift_all d xs = Inr d' \<Longrightarrow> xs \<noteq> [] \<Longrightarrow> within_capacity d \<Longrightarrow> 0 < lead_window_size d"
proof (cases xs)
  case Nil
  assume "xs \<noteq> []"
  with Nil show ?thesis by simp
next
  case (Cons x ys)
  assume "shift_all d xs = Inr d'" "within_capacity d"
  with Cons obtain d1 where "shift d x = Inr d1"
    by (auto split: sum.splits)
  with \<open>within_capacity d\<close> show ?thesis
    by (cases "lead_window d") (auto simp: shift_def within_capacity_def split: if_splits)
qed

lemma lag_drop_count:
  fixes n Ll Lg :: nat and m :: int
  assumes "Ll \<le> n" "0 < Ll" "m = int Lg"
  shows "(n - Ll - Lg) + nat (int (min (n - Ll) Lg) + 1 - m) = Suc n - Ll - Lg"
proof (cases "n - Ll \<le> Lg")
  case True
  then have "min (n - Ll) Lg = n - Ll" by simp
  moreover have "nat (int (n - Ll) + 1 - int Lg) = Suc (n - Ll) - Lg" by linarith
  ultimately show ?thesis using assms True by simp
next
  case False
  then have "min (n - Ll) Lg = Lg" by simp
  then show ?thesis using assms False by simp
qed

lemma push_history:
  assumes pos: "0 < lead_window_size d" and nonneg: "0 \<le> lag_window_size d"
    and lead: "lead_window d = drop (length h - nat (lead_window_size d)) h"
    and lag: "lag_window d =
               drop (length h - nat (lead_window_size d) - nat (lag_window_size d))
                 (take (length h - nat (lead_window_size d)) h)"
  shows "lead_window (push d x) = drop (length (h @ [x]) - nat (lead_window_size d)) (h @ [x])
       \<and> lag_window (push d x) =
           drop (length (h @ [x]) - nat (lead_window_size d) - nat (lag_window_size d))
             (take (length (h @ [x]) - nat (lead_window_size d)) (h @ [x]))"
proof -
  let ?Ll = "nat (lead_window_size d)" and ?Lg = "nat (lag_window_size d)" and ?n = "length h"
  have Ll: "0 < ?Ll" using pos by simp
  show ?thesis
  proof (cases "?n < ?Ll")
    case True
    then have lt: "int (length (lead_window d)) < lead_window_size d"
      using lead by simp
    have p: "push d x = d\<lparr>lead_window := lead_window d @ [x]\<rparr>"
      using shift_not_full[OF lt, of x] by (rule shift_push)
    show ?thesis
      using True lead lag unfolding p by simp
  next
    case False
    then have ge: "?Ll \<le> ?n" by simp
    have len_lead: "length (lead_window d) = ?Ll"
      using ge lead by simp
    then have full: "int (length (lead_window d)) = lead_window_size d"
      using pos by simp
    have p: "push d x =
               d\<lparr>lag_window := drop (nat (int (length (lag_window d)) + 1 - lag_window_size d))
                                  (lag_window d @ [hd (lead_window d)]),
                  lead_window := tl (lead_window d) @ [x]\<rparr>"
      using shift_full[OF full pos, of x] by (rule shift_push)
    have idx: "?n - ?Ll < ?n" using ge Ll by simp
    have hd_lead: "hd (lead_window d) = h ! (?n - ?Ll)"
      using idx unfolding lead by (simp add: hd_drop_conv_nth)
    have new_lead: "tl (lead_window d) @ [x] = drop (length (h @ [x]) - ?Ll) (h @ [x])"
      using ge Ll unfolding lead by (simp add: tl_drop drop_Suc Suc_diff_le)
    have t: "take (length (h @ [x]) - ?Ll) (h @ [x]) = take (?n - ?Ll) h @ [h ! (?n - ?Ll)]"
    proof -
      have "length (h @ [x]) - ?Ll = Suc (?n - ?Ll)" using ge by simp
      moreover have "take (Suc (?n - ?Ll)) (h @ [x]) = take (Suc (?n - ?Ll)) h"
        using idx by simp
      ultimately show ?thesis
        using idx by (simp add: take_Suc_conv_app_nth)
    qed
    have len_lag: "length (lag_window d) = min (?n - ?Ll) ?Lg"
      unfolding lag using ge Ll by (auto simp: min_def)
    have app: "lag_window d @ [hd (lead_window d)]
        = drop (?n - ?Ll - ?Lg) (take (?n - ?Ll) h @ [h ! (?n - ?Ll)])"
      unfolding lag hd_lead by simp
    have k: "nat (int (length (lag_window d)) + 1 - lag_window_size d) + (?n - ?Ll - ?Lg)
        = length (h @ [x]) - ?Ll - ?Lg"
      unfolding len_lag using lag_drop_count[OF ge Ll, of "lag_window_size d" ?Lg] nonneg by simp
    have new_lag: "drop (nat (int (length (lag_window d)) + 1 - lag_window_size d))
                     (lag_window d @ [hd (lead_window d)])
        = drop (length (h @ [x]) - ?Ll - ?Lg) (take (length (h @ [x]) - ?Ll) (h @ [x]))"
      unfolding app t drop_drop by (simp only: k)
    show ?thesis
      unfolding p using new_lead new_lag by simp
  qed
qed

lemma pushes_history:
  assumes "0 < lead_window_size d" "0 \<le> lag_window_size d"
    "lead_window d = []" "lag_window d = []"
  shows "lead_window (pushes d xs) = drop (length xs - nat (lead_window_size d)) xs
       \<and> lag_window (pushes d xs) =
           drop (length xs - nat (lead_window_size d) - nat (lag_window_size d))
             (take (length xs - nat (lead_window_size d)) xs)"
proof (induction xs rule: rev_induct)
  case Nil
  then show ?case using assms by (simp add: pushes_Nil)
next
  case (snoc x xs)
  have "0 < lead_window_size (pushes d xs)" "0 \<le> lag_window_size (pushes d xs)"
    using assms(1,2) by (simp_all add: pushes_fields)
  from push_history[OF this, of xs x] snoc show ?case
    by (simp add: pushes_snoc pushes_fields)
qed

subsection \<open>Runs of \<open>detect\<close> on concrete detectors\<close>

lemma init_det22: "init 1 2 1 1 1 = Inr det22"
  by (simp add: init_def deque_maxlen_def ebind_def det22_def)

lemma init_det01: "init 1 1 0 1 1 = Inr det01"
  by (simp add: init_def deque_maxlen_def ebind_def det01_def)

lemma init_empty_windows:
  assumes "init wsz wfac lf gf r = Inr d0"
  shows "lead_window d0 = []" "lag_window d0 = []" "0 \<le> lead_window_size d0"
    "0 \<le> lag_window_size d0" "within_capacity d0"
  using assms by (auto simp: init_def deque_maxlen_def ebind_def Let_def within_capacity_def split: if_splits)

lemma get_words_5_5: "get_words ppf4 [5, 5] 2 1 = Inl IndexError"
  by (simp add: get_words_def islice_def sax_5_5)

lemmas detect_eval =
  detect_def shift_def deque_append_def both_full_def cycle_def ebind_def

lemma detect_det22_constant:
  "detect ppf4 det22 [5, 5, 5, 5] 7 =
     (det22\<lparr>last_timestamp := 7, lead_window := [5, 5], lag_window := [5, 5]\<rparr>, Inl IndexError)"
  by (simp add: detect_eval det22_def get_words_5_5)

lemma detect_det01_first:
  "detect ppf4 det01 [1] 7 = (det01\<lparr>last_timestamp := 7\<rparr>, Inl IndexError)"
  by (simp add: detect_eval det01_def)

lemma detect_det22_abort:
  "detect ppf4 det22 [1, 3, 5, 5, 9] 7 =
     (det22\<lparr>last_timestamp := 7, lead_window := [5, 5], lag_window := [1, 3]\<rparr>, Inl IndexError)"
  by (simp add: detect_eval det22_def get_words_5_5)

lemma shift_all_det22:
  "shift_all det22 [1, 3, 2, 6, 4] = Inr (det22\<lparr>lead_window := [6, 4], lag_window := [3, 2]\<rparr>)"
  by (simp add: shift_def deque_append_def det22_def)

subsection \<open>A complete detection cycle\<close>

lemma abcd_keys: "sorted_list_of_set {''a'', ''b'', ''c'', ''d''} = [''a'', ''b'', ''c'', ''d'']"
  by code_simp

lemma build_bitmap_abcd:
  assumes "dom fr = {''a'', ''b'', ''c'', ''d''}"
  shows "build_bitmap fr =
           Inr [[normalized fr (Max (ran fr)) ''a'', normalized fr (Max (ran fr)) ''b''],
                [normalized fr (Max (ran fr)) ''c'', normalized fr (Max (ran fr)) ''d'']]"
proof -
  have h: "finite (dom fr)" "dom fr \<noteq> {}" "card (dom fr) = 2 * 2"
    by (simp_all add: assms)
  from build_bitmap_square[OF h] obtain bm where
    bm: "build_bitmap fr = Inr bm" "length bm = 2" "\<forall>a<2. length (bm ! a) = 2"
    and cells: "\<forall>a<2. \<forall>b<2. bm ! a ! b =
                  normalized fr (Max (ran fr)) (sorted_list_of_set (dom fr) ! (a * 2 + b))"
    by blast
  have c00: "bm ! 0 ! 0 = normalized fr (Max (ran fr)) ''a''"
    using cells[rule_format, of 0 0] by (simp add: assms abcd_keys)
  have c01: "bm ! 0 ! 1 = normalized fr (Max (ran fr)) ''b''"
    using cells[rule_format, of 0 1] by (simp add: assms abcd_keys)
  have c10: "bm ! 1 ! 0 = normalized fr (Max (ran fr)) ''c''"
    using cells[rule_format, of 1 0] by (simp add: assms abcd_keys)
  have c11: "bm ! 1 ! 1 = normalized fr (Max (ran fr)) ''d''"
    using cells[rule_format, of 1 1] by (simp add: assms abcd_keys)
  have l0: "length (bm ! 0) = 2" and l1: "length (bm ! 1) = 2"
    using bm(3) by simp_all
  have r0: "bm ! 0 = [normalized fr (Max (ran fr)) ''a'', normalized fr (Max (ran fr)) ''b'']"
    using list2[OF l0] unfolding c00 c01 .
  have r1: "bm ! 1 = [normalized fr (Max (ran fr)) ''c'', normalized fr (Max (ran fr)) ''d'']"
    using list2[OF l1] unfolding c10 c11 .
  show ?thesis
    unfolding bm(1) using list2[OF bm(2)] unfolding r0 r1 by simp
qed

lemma ran_abcd:
  assumes "dom fr = {''a'', ''b'', ''c'', ''d''}"
  shows "ran fr = {the (fr ''a''), the (fr ''b''), the (fr ''c''), the (fr ''d'')}"
proof -
  have keys: "''a'' \<in> dom fr" "''b'' \<in> dom fr" "''c'' \<in> dom fr" "''d'' \<in> dom fr"
    unfolding assms by simp_all
  then obtain va vb vc vd where
    v: "fr ''a'' = Some va" "fr ''b'' = Some vb" "fr ''c'' = Some vc" "fr ''d'' = Some vd"
    by blast
  have "v \<in> {va, vb, vc, vd}" if "v \<in> ran fr" for v
  proof -
    from that obtain k where k: "fr k = Some v" by (auto simp: ran_def)
    then have "k \<in> dom fr" by blast
    then have "k = ''a'' \<or> k = ''b'' \<or> k = ''c'' \<or> k = ''d''"
      unfolding assms by simp
    with k v show ?thesis by auto
  qed
  moreover have "va \<in> ran fr" "vb \<in> ran fr" "vc \<in> ran fr" "vd \<in> ran fr"
    using v by (blast intro: ranI)+
  ultimately have "ran fr = {va, vb, vc, vd}" by blast
  then show ?thesis by (simp add: v)
qed

lemma dom_level_1: "dom (count_frequencies words ''abcd'' 1) = {''a'', ''b'', ''c'', ''d''}"
  by (simp add: dom_count_frequencies strings_over_def)

lemma count_level_1:
  "key \<in> {''a'', ''b'', ''c'', ''d''} \<Longrightarrow>
   the (count_frequencies words ''abcd'' 1 key) = (\<Sum>w\<leftarrow>words. count_substr w key)"
  by (auto simp: count_frequencies_eq strings_over_def)

lemma counts_ad:
  "count_substr ''ad'' ''a'' = 1" "count_substr ''ad'' ''b'' = 0"
  "count_substr ''ad'' ''c'' = 0" "count_substr ''ad'' ''d'' = 1"
  by (simp_all add: count_substr_def eval_nat_numeral)

lemma counts_cc:
  "count_substr ''cc'' ''a'' = 0" "count_substr ''cc'' ''b'' = 0"
  "count_substr ''cc'' ''c'' = 2" "count_substr ''cc'' ''d'' = 0"
  by (simp_all add: count_substr_def eval_nat_numeral)

lemma bitmap_ad: "build_bitmap (count_frequencies [''ad''] ''abcd'' 1) = Inr [[1, 0], [0, 1]]"
  by (simp add: build_bitmap_abcd[OF dom_level_1] ran_abcd[OF dom_level_1] count_level_1
      counts_ad normalized_def)

lemma bitmap_cc: "build_bitmap (count_frequencies [''cc''] ''abcd'' 1) = Inr [[0, 0], [1, 0]]"
  by (simp add: build_bitmap_abcd[OF dom_level_1] ran_abcd[OF dom_level_1] count_level_1
      counts_cc normalized_def)

lemma breakpoints_4:
  "breakpoints ppf4 4 = Inr [Fin (- 6745 / 10000), Fin 0, Fin (6745 / 10000), PInf]"
  by (simp add: breakpoints_def linspace_def ebind_def ppf4_def eval_nat_numeral)

lemma section_sizes_4_2: "section_sizes 4 2 = [2, 2]"
proof -
  have a: "(4::nat) mod 2 = 0" "(4::nat) div 2 = 2" by simp_all
  show ?thesis
    unfolding section_sizes_def a by (simp add: numeral_2_eq_2)
qed

lemma array_split_4_2: "array_split [a, b, c, d] 2 = Inr [[a, b], [c, d]]"
proof -
  have l: "length [a, b, c, d] = 4" "nat 2 = 2" by simp_all
  show ?thesis
    unfolding array_split_def l section_sizes_4_2 by simp
qed

lemma standardize_1133: "standardize [1, 1, 3, 3] = [Fin (- 1), Fin (- 1), Fin 1, Fin 1]"
  by (simp add: standardize_def scale_factor_def np_mean_def np_sum_def np_std_def np_sub_def)

lemma standardize_1331: "standardize [1, 3, 3, 1] = [Fin (- 1), Fin 1, Fin 1, Fin (- 1)]"
  by (simp add: standardize_def scale_factor_def np_mean_def np_sum_def np_std_def np_sub_def)

lemma sax_1133: "sax ppf4 [1, 1, 3, 3] 4 2 = Inr ''ad''"
  unfolding sax_def Let_def standardize_1133 breakpoints_4 array_split_4_2 ebind_def
  by (simp add: np_mean_def np_sum_def letter_def ascii_letters_def)

lemma sax_1331: "sax ppf4 [1, 3, 3, 1] 4 2 = Inr ''cc''"
  unfolding sax_def Let_def standardize_1331 breakpoints_4 array_split_4_2 ebind_def
  by (simp add: np_mean_def np_sum_def letter_def ascii_letters_def)

lemma words_1133: "get_words ppf4 [1, 1, 3, 3] 4 2 = Inr [''ad'']"
  by (simp add: get_words_def islice_def sax_1133)

lemma words_1331: "get_words ppf4 [1, 3, 3, 1] 4 2 = Inr [''cc'']"
  by (simp add: get_words_def islice_def sax_1331)

lemma dist_cc_ad: "dist [[0, 0], [1, 0]] [[1, 0], [0, 1]] = Inr 3"
  by (simp add: dist_def broadcast_dim_def nrows_def ncols_def bcell_def eval_nat_numeral)

lemma detect_det44_run:
  "detect ppf4 det44 [1, 1, 3, 3, 1, 3, 3, 1] 7 =
     (det44\<lparr>last_timestamp := 7, lead_window := [1, 3, 3, 1], lag_window := [1, 1, 3, 3]\<rparr>,
      Inr [\<lparr>score = 3, bitmp1 = [[0, 0], [1, 0]], bitmp2 = [[1, 0], [0, 1]]\<rparr>])"
  by (simp add: detect_eval det44_def words_1133 words_1331 bitmap_ad bitmap_cc dist_cc_ad)

subsection \<open>The exceptions of a detection cycle\<close>

lemma bitmap_loop_error: "bitmap_loop fr mx st keys = Inl e \<Longrightarrow> e = IndexError"
proof (induction keys arbitrary: st)
  case Nil
  then show ?case by simp
next
  case (Cons key keys)
  show ?case
  proof (cases "bitmap_step fr mx st key")
    case (Inl e')
    with Cons.prems have "e = e'" by simp
    with Inl show ?thesis
      by (cases st) (auto simp: bitmap_step_def Let_def split: if_splits)
  next
    case (Inr st')
    with Cons.prems have "bitmap_loop fr mx st' keys = Inl e" by simp
    then show ?thesis by (rule Cons.IH)
  qed
qed

lemma build_bitmap_error: "build_bitmap fr = Inl e \<Longrightarrow> e = ValueError \<or> e = IndexError"
  by (auto simp: build_bitmap_def Let_def ebind_def split: if_splits sum.splits prod.splits
      dest: bitmap_loop_error)

lemma dist_error: "dist A B = Inl e \<Longrightarrow> e = ValueError"
  by (auto simp: dist_def split: option.splits)

lemma get_words_full_window:
  assumes "int (length window) = k * fs"
  shows "get_words ppf window fs w \<noteq> Inl Exception"
proof (cases "fs = 0")
  case True
  then show ?thesis by (simp add: get_words_def)
next
  case False
  have "fs dvd int (length window)" using assms by simp
  with get_words_alignment[OF False, of ppf window w] show ?thesis by simp
qed

lemma cycle_no_alignment_error:
  assumes "lead_window_size d = lead_window_factor d * window_size d"
    "lag_window_size d = lag_window_factor d * window_size d" "both_full d"
  shows "cycle ppf d \<noteq> Inl Exception"
proof -
  have l: "get_words ppf (lead_window d) (window_size d) (word_size d) \<noteq> Inl Exception"
    "get_words ppf (lag_window d) (window_size d) (word_size d) \<noteq> Inl Exception"
    using assms by (auto intro!: get_words_full_window simp: both_full_def)
  show ?thesis
  proof
    assume "cycle ppf d = Inl Exception"
    with l show False
      by (auto simp: cycle_def ebind_def Let_def split: sum.splits
          dest: build_bitmap_error dist_error)
  qed
qed

lemma detect_no_alignment_error:
  assumes "init wsz wfac lf gf r = Inr d0"
  shows "snd (detect ppf (pushes d0 ys) xs ts) \<noteq> Inl Exception"
proof
  let ?d = "(pushes d0 ys)\<lparr>last_timestamp := ts\<rparr>"
  assume "snd (detect ppf (pushes d0 ys) xs ts) = Inl Exception"
  then have "snd (detect_loop ppf ?d xs []) = Inl Exception"
    by (simp add: detect_def)
  from detect_loop_error_state[OF this] obtain n where
    n: "shift (pushes ?d (take n xs)) (xs ! n) = Inl Exception
        \<or> both_full (pushes ?d (take (Suc n) xs))
          \<and> cycle ppf (pushes ?d (take (Suc n) xs)) = Inl Exception"
    by blast
  have f: "lead_window_size d0 = lead_window_factor d0 * window_size d0"
    "lag_window_size d0 = lag_window_factor d0 * window_size d0"
    using assms by (auto simp: init_def deque_maxlen_def ebind_def Let_def split: if_splits)
  have "lead_window_size (pushes ?d zs) = lead_window_factor (pushes ?d zs) * window_size (pushes ?d zs)"
    "lag_window_size (pushes ?d zs) = lag_window_factor (pushes ?d zs) * window_size (pushes ?d zs)"
    for zs
    using f by (simp_all add: pushes_fields)
  from cycle_no_alignment_error[OF this] n show False
    by (auto dest: shift_fails)
qed

subsection \<open>The results of \<open>detect\<close>\<close>

text \<open>
  Claim C1, as amended. Let the lead capacity be at least 1 and let both windows be within
  their capacity; \<open>fill\<close> counts the samples the windows hold, which is the number of
  samples ingested so far, cut off at \<open>L_lead + L_lag\<close>. A call of \<open>detect\<close> whose samples
  leave the total below \<open>L_lead + L_lag\<close> returns the empty list and raises nothing. In
  general the call runs one detection cycle for every sample from the one that makes both
  windows full onward, in the order of the samples, each on the windows as they are after
  that sample; it returns the list of their results, or raises the exception of the first
  cycle that fails. So a call that returns has produced exactly one result for each of
  these samples, in input order, and has ingested all its samples.
\<close>

theorem detect_results:
  assumes "within_capacity d" "0 < lead_window_size d"
  shows "(fill d + length xs < capacity d \<longrightarrow>
            detect ppf d xs ts = (pushes (d\<lparr>last_timestamp := ts\<rparr>) xs, Inr []))
       \<and> snd (detect ppf d xs ts) =
            traverse (cycle ppf)
              (map (\<lambda>i. pushes (d\<lparr>last_timestamp := ts\<rparr>) (take (Suc i) xs))
                 [capacity d - 1 - fill d..<length xs])
       \<and> (snd (detect ppf d xs ts) = Inr rs \<longrightarrow>
            length rs = length xs - (capacity d - 1 - fill d)
          \<and> (\<forall>i<length rs.
                cycle ppf (pushes (d\<lparr>last_timestamp := ts\<rparr>)
                             (take (Suc (capacity d - 1 - fill d + i)) xs)) = Inr (rs ! i))
          \<and> fst (detect ppf d xs ts) = pushes (d\<lparr>last_timestamp := ts\<rparr>) xs
          \<and> fill (fst (detect ppf d xs ts)) = min (fill d + length xs) (capacity d))"
proof -
  let ?d = "d\<lparr>last_timestamp := ts\<rparr>"
  let ?k = "capacity d - 1 - fill d"
  let ?states = "map (\<lambda>i. pushes ?d (take (Suc i) xs)) [?k..<length xs]"
  have wc: "within_capacity ?d" "0 < lead_window_size ?d"
    using assms by (simp_all add: within_capacity_def)
  have same: "capacity ?d = capacity d" "fill ?d = fill d"
    by (simp_all add: capacity_def fill_def)
  have res: "snd (detect ppf d xs ts) = traverse (cycle ppf) ?states"
    using detect_loop_results[OF wc, of ppf xs "[]"]
    by (simp add: detect_def same split: sum.splits)
  have early: "detect ppf d xs ts = (pushes ?d xs, Inr [])" if "fill d + length xs < capacity d"
  proof -
    from that have "length xs \<le> ?k" by simp
    then have "?states = []" by simp
    with res have s: "snd (detect ppf d xs ts) = Inr []" by (simp only: traverse.simps)
    then have "fst (detect ppf d xs ts) = pushes ?d xs"
      unfolding detect_def by (rule detect_loop_success_state)
    with s show ?thesis by (simp add: prod_eq_iff)
  qed
  have late: "length rs = length xs - ?k
      \<and> (\<forall>i<length rs. cycle ppf (pushes ?d (take (Suc (?k + i)) xs)) = Inr (rs ! i))
      \<and> fst (detect ppf d xs ts) = pushes ?d xs
      \<and> fill (fst (detect ppf d xs ts)) = min (fill d + length xs) (capacity d)"
    if r: "snd (detect ppf d xs ts) = Inr rs"
  proof -
    from r res have t: "traverse (cycle ppf) ?states = Inr rs" by simp
    from traverse_Inr_length[OF t] have len: "length rs = length xs - ?k" by simp
    have "cycle ppf (pushes ?d (take (Suc (?k + i)) xs)) = Inr (rs ! i)" if "i < length rs" for i
      using traverse_Inr_nth[OF t, of i] that len by simp
    moreover have st: "fst (detect ppf d xs ts) = pushes ?d xs"
      using r unfolding detect_def by (rule detect_loop_success_state)
    moreover have "fill (pushes ?d xs) = min (fill d + length xs) (capacity d)"
      using fill_pushes[OF wc, of xs] by (simp add: same)
    ultimately show ?thesis using len by simp
  qed
  from res early late show ?thesis by blast
qed

text \<open>The theorem at the detector \<open>det44\<close>, whose windows hold four samples each: seven
  samples give no result, and the eighth gives the one result of the run
  \<open>detect_det44_run\<close>.\<close>

theorem detect_results_witness:
  "within_capacity det44 \<and> 0 < lead_window_size det44
   \<and> fill det44 + length [1, 1, 3, 3, 1, 3, 3 :: real] < capacity det44
   \<and> detect ppf4 det44 [1, 1, 3, 3, 1, 3, 3] 7 =
        (pushes (det44\<lparr>last_timestamp := 7\<rparr>) [1, 1, 3, 3, 1, 3, 3], Inr [])
   \<and> snd (detect ppf4 det44 [1, 1, 3, 3, 1, 3, 3, 1] 7) =
        Inr [\<lparr>score = 3, bitmp1 = [[0, 0], [1, 0]], bitmp2 = [[1, 0], [0, 1]]\<rparr>]
   \<and> length [\<lparr>score = 3, bitmp1 = [[0, 0], [1, 0]], bitmp2 = [[1, 0], [0, 1 :: real]]\<rparr>]
        = length [1, 1, 3, 3, 1, 3, 3, 1 :: real] - (capacity det44 - 1 - fill det44)
   \<and> fill (fst (detect ppf4 det44 [1, 1, 3, 3, 1, 3, 3, 1] 7)) = capacity det44"
proof -
  have h: "within_capacity det44" "0 < lead_window_size det44"
    by (simp_all add: within_capacity_def det44_def)
  have c: "capacity det44 = 8" "fill det44 = 0"
    by (simp_all add: capacity_def fill_def det44_def)
  have s: "snd (detect ppf4 det44 [1, 1, 3, 3, 1, 3, 3, 1] 7) =
        Inr [\<lparr>score = 3, bitmp1 = [[0, 0], [1, 0]], bitmp2 = [[1, 0], [0, 1]]\<rparr>]"
    by (simp add: detect_det44_run)
  note t7 = detect_results[OF h, of "[1, 1, 3, 3, 1, 3, 3]" ppf4 7 "[]"]
  have lt: "fill det44 + length [1, 1, 3, 3, 1, 3, 3 :: real] < capacity det44"
    by (simp add: c)
  from t7 lt have a: "detect ppf4 det44 [1, 1, 3, 3, 1, 3, 3] 7 =
        (pushes (det44\<lparr>last_timestamp := 7\<rparr>) [1, 1, 3, 3, 1, 3, 3], Inr [])"
    by blast
  note t8 = detect_results[OF h, of "[1, 1, 3, 3, 1, 3, 3, 1]" ppf4 7
      "[\<lparr>score = 3, bitmp1 = [[0, 0], [1, 0]], bitmp2 = [[1, 0], [0, 1]]\<rparr>]"]
  from t8 s have "fill (fst (detect ppf4 det44 [1, 1, 3, 3, 1, 3, 3, 1] 7))
      = min (fill det44 + length [1, 1, 3, 3, 1, 3, 3, 1 :: real]) (capacity det44)"
    by blast
  then have b: "fill (fst (detect ppf4 det44 [1, 1, 3, 3, 1, 3, 3, 1] 7)) = capacity det44"
    by (simp add: c)
  have n: "length [\<lparr>score = 3, bitmp1 = [[0, 0], [1, 0]], bitmp2 = [[1, 0], [0, 1 :: real]]\<rparr>]
        = length [1, 1, 3, 3, 1, 3, 3, 1 :: real] - (capacity det44 - 1 - fill det44)"
    by (simp add: c)
  from h lt a s n b show ?thesis by blast
qed

text \<open>The claim as stated fails in two ways. On \<open>det22\<close>, whose windows hold two samples
  each, the fourth of four equal samples makes both windows full, and the call raises
  IndexError (the slice has no variance) instead of returning a result. On \<open>det01\<close>, whose
  lead capacity is 0, the first call raises IndexError (\<open>popleft\<close> on the empty deque)
  instead of returning the empty list.\<close>

theorem detect_raises:
  "fill det22 + length [5, 5, 5, 5 :: real] = capacity det22
   \<and> snd (detect ppf4 det22 [5, 5, 5, 5] 7) = Inl IndexError
   \<and> fill det01 + 0 < capacity det01
   \<and> snd (detect ppf4 det01 [1] 7) = Inl IndexError"
  by (simp add: detect_det22_constant detect_det01_first)
    (simp add: fill_def capacity_def det22_def det01_def)

subsection \<open>The invariant of the two windows\<close>

lemma windows_after:
  assumes "init wsz wfac lf gf r = Inr d0" "shift_all d0 xs = Inr d"
  shows "int (length (lead_window d)) \<le> lead_window_size d
       \<and> int (length (lag_window d)) \<le> lag_window_size d
       \<and> lead_window d = drop (length xs - nat (lead_window_size d)) xs
       \<and> lag_window d =
            drop (length xs - nat (lead_window_size d) - nat (lag_window_size d))
              (take (length xs - nat (lead_window_size d)) xs)
       \<and> (shift d x = Inr d' \<longrightarrow>
            int (length (lead_window d')) \<le> lead_window_size d'
          \<and> int (length (lag_window d')) \<le> lag_window_size d'
          \<and> (int (length (lead_window d)) = lead_window_size d \<longrightarrow>
                lead_window d' = tl (lead_window d) @ [x]
              \<and> lag_window d' =
                  (if int (length (lag_window d)) = lag_window_size d
                   then tl (lag_window d @ [hd (lead_window d)])
                   else lag_window d @ [hd (lead_window d)]))
          \<and> (int (length (lead_window d)) \<noteq> lead_window_size d \<longrightarrow>
                lead_window d' = lead_window d @ [x] \<and> lag_window d' = lag_window d))"
proof -
  note i = init_empty_windows[OF assms(1)]
  have d: "d = pushes d0 xs"
    using assms(2) by (rule shift_all_pushes)
  have wc: "within_capacity d"
    unfolding d using i(5) by (rule within_capacity_pushes)
  have hist: "lead_window d = drop (length xs - nat (lead_window_size d)) xs
      \<and> lag_window d =
           drop (length xs - nat (lead_window_size d) - nat (lag_window_size d))
             (take (length xs - nat (lead_window_size d)) xs)"
  proof (cases "xs = []")
    case True
    then show ?thesis using i d by (simp add: pushes_Nil)
  next
    case False
    from shift_all_positive[OF assms(2) False i(5)] have "0 < lead_window_size d0" .
    from pushes_history[OF this i(4) i(1) i(2), of xs] show ?thesis
      unfolding d by (simp add: pushes_fields)
  qed
  have step: "int (length (lead_window d')) \<le> lead_window_size d'
          \<and> int (length (lag_window d')) \<le> lag_window_size d'
          \<and> (int (length (lead_window d)) = lead_window_size d \<longrightarrow>
                lead_window d' = tl (lead_window d) @ [x]
              \<and> lag_window d' =
                  (if int (length (lag_window d)) = lag_window_size d
                   then tl (lag_window d @ [hd (lead_window d)])
                   else lag_window d @ [hd (lead_window d)]))
          \<and> (int (length (lead_window d)) \<noteq> lead_window_size d \<longrightarrow>
                lead_window d' = lead_window d @ [x] \<and> lag_window d' = lag_window d)"
    if s: "shift d x = Inr d'"
  proof -
    from within_capacity_shift[OF wc s] have wc': "within_capacity d'" .
    show ?thesis
    proof (cases "int (length (lead_window d)) = lead_window_size d")
      case True
      with s have pos: "0 < lead_window_size d"
        by (cases "lead_window d") (auto simp: shift_def)
      have lag_le: "int (length (lag_window d)) \<le> lag_window_size d"
        using wc by (simp add: within_capacity_def)
      have dr: "drop (nat (int (length (lag_window d)) + 1 - lag_window_size d))
              (lag_window d @ [hd (lead_window d)])
            = (if int (length (lag_window d)) = lag_window_size d
               then tl (lag_window d @ [hd (lead_window d)])
               else lag_window d @ [hd (lead_window d)])"
      proof (cases "int (length (lag_window d)) = lag_window_size d")
        case True
        then have n: "nat (int (length (lag_window d)) + 1 - lag_window_size d) = Suc 0" by simp
        have "drop (Suc 0) (lag_window d @ [hd (lead_window d)])
              = tl (lag_window d @ [hd (lead_window d)])"
          by (simp only: drop_Suc drop_0)
        then show ?thesis unfolding n using True by simp
      next
        case False
        with lag_le have n: "nat (int (length (lag_window d)) + 1 - lag_window_size d) = 0" by simp
        show ?thesis unfolding n using False by simp
      qed
      from shift_full[OF True pos, of x] s
      have d': "d' = d\<lparr>lag_window := drop (nat (int (length (lag_window d)) + 1 - lag_window_size d))
                                    (lag_window d @ [hd (lead_window d)]),
                         lead_window := tl (lead_window d) @ [x]\<rparr>"
        by simp
      have "lead_window d' = tl (lead_window d) @ [x]"
        unfolding d' by simp
      moreover have "lag_window d' =
                  (if int (length (lag_window d)) = lag_window_size d
                   then tl (lag_window d @ [hd (lead_window d)])
                   else lag_window d @ [hd (lead_window d)])"
        unfolding d' using dr by simp
      ultimately show ?thesis
        using True wc' unfolding within_capacity_def by blast
    next
      case False
      with wc have lt: "int (length (lead_window d)) < lead_window_size d"
        by (simp add: within_capacity_def)
      from shift_not_full[OF lt, of x] s
      have d': "d' = d\<lparr>lead_window := lead_window d @ [x]\<rparr>"
        by simp
      have "lead_window d' = lead_window d @ [x]" "lag_window d' = lag_window d"
        unfolding d' by simp_all
      then show ?thesis
        using False wc' unfolding within_capacity_def by blast
    qed
  qed
  from wc hist step show ?thesis
    by (simp add: within_capacity_def)
qed


text \<open>
  Claim C2, as amended. Let the detector be as constructed, with a lead capacity of at
  least 1, and let the samples \<open>xs\<close> be ingested one by one (the window update of
  \<open>detect\<close>, lines 213 to 215). Every step succeeds. After \<open>xs\<close> neither window is longer
  than its capacity; the lead window holds the last \<open>L_lead\<close> samples of \<open>xs\<close> and the lag
  window the (at most \<open>L_lag\<close>) samples immediately before them, in arrival order. The
  next step, on a sample \<open>x\<close>, succeeds too: when the lead window is at capacity its oldest
  sample leaves it and is appended to the lag window, which drops its own oldest sample if
  it was at capacity; otherwise \<open>x\<close> is appended to the lead window and the lag window
  stays.
\<close>

theorem windows_invariant:
  assumes "init wsz wfac lf gf r = Inr d0" "0 < lead_window_size d0"
  shows "\<exists>d d'. shift_all d0 xs = Inr d \<and> shift d x = Inr d'
       \<and> int (length (lead_window d)) \<le> lead_window_size d
       \<and> int (length (lag_window d)) \<le> lag_window_size d
       \<and> lead_window d = drop (length xs - nat (lead_window_size d)) xs
       \<and> lag_window d =
            drop (length xs - nat (lead_window_size d) - nat (lag_window_size d))
              (take (length xs - nat (lead_window_size d)) xs)
       \<and> int (length (lead_window d')) \<le> lead_window_size d'
       \<and> int (length (lag_window d')) \<le> lag_window_size d'
       \<and> (int (length (lead_window d)) = lead_window_size d \<longrightarrow>
             lead_window d' = tl (lead_window d) @ [x]
           \<and> lag_window d' =
               (if int (length (lag_window d)) = lag_window_size d
                then tl (lag_window d @ [hd (lead_window d)])
                else lag_window d @ [hd (lead_window d)]))
       \<and> (int (length (lead_window d)) \<noteq> lead_window_size d \<longrightarrow>
             lead_window d' = lead_window d @ [x] \<and> lag_window d' = lag_window d)"
proof -
  let ?d = "pushes d0 xs"
  let ?d' = "push ?d x"
  have a: "shift_all d0 xs = Inr ?d"
    using assms(2) by (rule shift_all_total)
  have "0 < lead_window_size ?d"
    using assms(2) by (simp add: pushes_fields)
  then have b: "shift ?d x = Inr ?d'"
    by (rule shift_push_total)
  note t = windows_after[OF assms(1) a, of x ?d']
  from t b have step: "int (length (lead_window ?d')) \<le> lead_window_size ?d'
       \<and> int (length (lag_window ?d')) \<le> lag_window_size ?d'
       \<and> (int (length (lead_window ?d)) = lead_window_size ?d \<longrightarrow>
             lead_window ?d' = tl (lead_window ?d) @ [x]
           \<and> lag_window ?d' =
               (if int (length (lag_window ?d)) = lag_window_size ?d
                then tl (lag_window ?d @ [hd (lead_window ?d)])
                else lag_window ?d @ [hd (lead_window ?d)]))
       \<and> (int (length (lead_window ?d)) \<noteq> lead_window_size ?d \<longrightarrow>
             lead_window ?d' = lead_window ?d @ [x] \<and> lag_window ?d' = lag_window ?d)"
    by blast
  show ?thesis
    apply (rule exI[of _ ?d], rule exI[of _ ?d'])
    apply (intro conjI)
             apply (rule a)
            apply (rule b)
           apply (rule t[THEN conjunct1])
          apply (rule t[THEN conjunct2, THEN conjunct1])
         apply (rule t[THEN conjunct2, THEN conjunct2, THEN conjunct1])
        apply (rule t[THEN conjunct2, THEN conjunct2, THEN conjunct2, THEN conjunct1])
       apply (rule step[THEN conjunct1])
      apply (rule step[THEN conjunct2, THEN conjunct1])
     apply (rule step[THEN conjunct2, THEN conjunct2, THEN conjunct1])
    apply (rule step[THEN conjunct2, THEN conjunct2, THEN conjunct2])
    done
qed

text \<open>The theorem at \<open>det22\<close> after five samples, and at its next step.\<close>

theorem windows_invariant_witness:
  "init 1 2 1 1 1 = Inr det22 \<and> 0 < lead_window_size det22
   \<and> (\<exists>d d'. shift_all det22 [1, 3, 2, 6, 4] = Inr d \<and> shift d 8 = Inr d'
         \<and> lead_window d = [6, 4] \<and> lag_window d = [3, 2]
         \<and> lead_window d' = [4, 8] \<and> lag_window d' = [2, 6])"
proof -
  have pos: "0 < lead_window_size det22"
    by (simp add: det22_def)
  from windows_invariant[OF init_det22 pos, of "[1, 3, 2, 6, 4]" 8]
  obtain d d' where a: "shift_all det22 [1, 3, 2, 6, 4] = Inr d" and b: "shift d 8 = Inr d'"
    by blast
  from a have d: "d = det22\<lparr>lead_window := [6, 4], lag_window := [3, 2]\<rparr>"
    unfolding shift_all_det22 by simp
  from b have d': "d' = det22\<lparr>lead_window := [4, 8], lag_window := [2, 6]\<rparr>"
    unfolding d by (simp add: shift_def deque_append_def det22_def)
  have "lead_window d = [6, 4] \<and> lag_window d = [3, 2]
      \<and> lead_window d' = [4, 8] \<and> lag_window d' = [2, 6]"
    unfolding d d' by simp
  with a b init_det22 pos show ?thesis by blast
qed

text \<open>The claim as stated fails at a lead capacity of 0, which \<open>__init__\<close> accepts: the
  empty lead window is at capacity, \<open>popleft\<close> raises IndexError, and no sample reaches
  either window.\<close>

theorem windows_lead_capacity_zero:
  "init 1 1 0 1 1 = Inr det01
   \<and> int (length (lead_window det01)) = lead_window_size det01
   \<and> shift det01 5 = Inl IndexError
   \<and> shift_all det01 [5] = Inl IndexError"
  by (simp add: init_def deque_maxlen_def ebind_def det01_def shift_def)

subsection \<open>The frequency counter at subword length 0\<close>

text \<open>
  Claim C3 at \<open>recursion_level = 0\<close>. The claim asks for the keys to be the strings of
  length 0, that is the one empty string (\<open>4 ^ 0 = 1\<close>). \<open>_build_combinations\<close> seeds the
  set with the single letters before it looks at the length, so the table has the four
  keys of length 1 and no entry for the empty string. (For \<open>recursion_level \<ge> 1\<close> the keys
  and the counts are as claimed: \<open>count_frequencies_table\<close>.)
\<close>

theorem count_frequencies_level_0:
  "dom (count_frequencies [''ab''] ''abcd'' 0) = {''a'', ''b'', ''c'', ''d''}
   \<and> card (dom (count_frequencies [''ab''] ''abcd'' 0)) = 4
   \<and> strings_over ''abcd'' 0 = {[]}
   \<and> count_frequencies [''ab''] ''abcd'' 0 [] = None"
  by (simp add: dom_count_frequencies count_frequencies_eq strings_over_def)

subsection \<open>The bitmap of a frequency table\<close>







subsection \<open>The dissimilarity metric\<close>










subsection \<open>The SAX word of a subsequence\<close>




subsection \<open>Word extraction\<close>

text \<open>
  Claim C7, as amended. \<open>feature_size = 0\<close> raises ZeroDivisionError. For every other
  \<open>feature_size\<close>, \<open>_get_words\<close> raises the data-alignment error (a plain \<open>Exception\<close>)
  exactly when the length of the window is not divisible by \<open>feature_size\<close>. When
  \<open>feature_size \<ge> 1\<close> divides the length, the result is that of SAX-encoding the
  \<open>len(window) / feature_size\<close> contiguous slices in arrival order: the list of their
  words when every slice encodes, and otherwise the exception of the first slice that
  does not.
\<close>

theorem get_words_slices:
  "get_words ppf window 0 w = Inl ZeroDivisionError
   \<and> (fs \<noteq> 0 \<longrightarrow>
        (get_words ppf window fs w = Inl Exception \<longleftrightarrow> \<not> fs dvd int (length window)))
   \<and> (0 < fs \<and> fs dvd int (length window) \<longrightarrow>
        get_words ppf window fs w =
          traverse (\<lambda>i. sax ppf (take (nat fs) (drop (i * nat fs) window)) 4 w)
            [0..<length window div nat fs])
   \<and> (0 < fs \<and> get_words ppf window fs w = Inr words \<longrightarrow>
        length words = length window div nat fs
        \<and> (\<forall>i<length words.
              sax ppf (take (nat fs) (drop (i * nat fs) window)) 4 w = Inr (words ! i)))"
proof -
  have "length words = length window div nat fs
        \<and> (\<forall>i<length words.
              sax ppf (take (nat fs) (drop (i * nat fs) window)) 4 w = Inr (words ! i))"
    if fs: "0 < fs" and r: "get_words ppf window fs w = Inr words"
  proof -
    have "get_words ppf window fs w \<noteq> Inl Exception" using r by simp
    then have "fs dvd int (length window)"
      using get_words_alignment[of fs ppf window w] fs by auto
    from get_words_divisible[OF fs this, of ppf w] r
    have t: "traverse (\<lambda>i. sax ppf (take (nat fs) (drop (i * nat fs) window)) 4 w)
               [0..<length window div nat fs] = Inr words"
      by simp
    from traverse_Inr_length[OF t] have len: "length words = length window div nat fs"
      by simp
    have "sax ppf (take (nat fs) (drop (i * nat fs) window)) 4 w = Inr (words ! i)"
      if "i < length words" for i
      using traverse_Inr_nth[OF t, of i] that len by simp
    with len show ?thesis by blast
  qed
  then show ?thesis
    using get_words_alignment[of fs ppf window w] get_words_divisible[of fs window ppf w]
    by (simp add: get_words_def)
qed

text \<open>The theorem at a window of four samples cut into two slices of two.\<close>

theorem get_words_slices_witness:
  "(2 :: int) \<noteq> 0 \<and> (0 :: int) < 2 \<and> (2 :: int) dvd int (length [1, 3, 2, 6 :: real])
   \<and> get_words ppf4 [1, 3, 2, 6] 2 1 = Inr [''c'', ''c'']
   \<and> length [''c'', ''c''] = length [1, 3, 2, 6 :: real] div nat 2
   \<and> get_words ppf4 [1, 3, 2, 6, 4] 2 1 = Inl Exception
   \<and> \<not> (2 :: int) dvd int (length [1, 3, 2, 6, 4 :: real])"
proof -
  have d: "(2 :: int) dvd int (length [1, 3, 2, 6 :: real])" by simp
  have n: "\<not> (2 :: int) dvd int (length [1, 3, 2, 6, 4 :: real])" by simp
  have "traverse (\<lambda>i. sax ppf4 (take (nat 2) (drop (i * nat 2) [1, 3, 2, 6])) 4 1)
          [0..<length [1, 3, 2, 6 :: real] div nat 2] = Inr [''c'', ''c'']"
    by (simp add: upt_rec[of _ "numeral _"] sax_1_3 sax_2_6)
  with get_words_slices[of ppf4 "[1, 3, 2, 6]" 1 2 "[''c'', ''c'']"] d
  have a: "get_words ppf4 [1, 3, 2, 6] 2 1 = Inr [''c'', ''c'']"
    by simp
  from get_words_slices[of ppf4 "[1, 3, 2, 6, 4]" 1 2 "[]"] n
  have b: "get_words ppf4 [1, 3, 2, 6, 4] 2 1 = Inl Exception"
    by simp
  from a b d n show ?thesis by simp
qed

text \<open>The claim as stated fails in two ways. The length of the window \<open>[5, 5]\<close> is
  divisible by 2, and no list is returned: its one slice has no variance and \<open>_sax\<close>
  raises IndexError. With \<open>feature_size = 0\<close> the exception is ZeroDivisionError.\<close>

theorem get_words_other_errors:
  "(2 :: int) dvd int (length [5, 5 :: real])
   \<and> get_words ppf4 [5, 5] 2 1 = Inl IndexError
   \<and> get_words ppf4 [5] 0 1 = Inl ZeroDivisionError"
  by (simp add: get_words_def islice_def sax_5_5)

subsection \<open>SAX encoding of a subsequence without variance\<close>





subsection \<open>Construction validates no shape\<close>




subsection \<open>The timestamp and the state after an exception\<close>

text \<open>
  Claim C10. \<open>detect\<close> stores the timestamp before it looks at the samples: the detector
  it leaves behind carries the timestamp of the call whether the call returns or raises,
  and for no samples the call returns the empty list and changes nothing else. A call that
  returns has ingested all its samples. A call that raises \<open>e\<close> at the sample of index \<open>n\<close>
  leaves the windows as they are after the samples before it, and after that sample too
  when it was ingested and the detection cycle raised; nothing is rolled back. This
  holds for every exception. (On a detector made by \<open>__init__\<close> the alignment error
  itself never aborts a batch, \<open>detect_no_alignment_error\<close>: a full window has a
  whole number of slices. The exceptions that do are those of \<open>_sax\<close> and of \<open>popleft\<close>.)
\<close>

theorem detect_timestamp_and_state:
  "last_timestamp (fst (detect ppf d xs ts)) = ts
   \<and> detect ppf d [] ts = (d\<lparr>last_timestamp := ts\<rparr>, Inr [])
   \<and> (snd (detect ppf d xs ts) = Inr rs \<longrightarrow>
        fst (detect ppf d xs ts) = pushes (d\<lparr>last_timestamp := ts\<rparr>) xs)
   \<and> (snd (detect ppf d xs ts) = Inl e \<longrightarrow>
        (\<exists>n<length xs.
           fst (detect ppf d xs ts) = pushes (d\<lparr>last_timestamp := ts\<rparr>) (take (Suc n) xs)
         \<and> (shift (pushes (d\<lparr>last_timestamp := ts\<rparr>) (take n xs)) (xs ! n) = Inl e
            \<or> both_full (pushes (d\<lparr>last_timestamp := ts\<rparr>) (take (Suc n) xs))
              \<and> cycle ppf (pushes (d\<lparr>last_timestamp := ts\<rparr>) (take (Suc n) xs)) = Inl e)))"
  using detect_loop_timestamp[of ppf "d\<lparr>last_timestamp := ts\<rparr>" xs "[]"]
    detect_loop_success_state[of ppf "d\<lparr>last_timestamp := ts\<rparr>" xs "[]" rs]
    detect_loop_error_state[of ppf "d\<lparr>last_timestamp := ts\<rparr>" xs "[]" e]
  by (simp add: detect_def)

text \<open>The theorem at \<open>det22\<close> and a batch of five samples whose fourth sample fills both
  windows with a lead window without variance: the call raises IndexError there, the
  first four samples stay in the windows, the fifth is never looked at, and the timestamp
  is that of the call.\<close>

theorem detect_timestamp_and_state_witness:
  "snd (detect ppf4 det22 [1, 3, 5, 5, 9] 7) = Inl IndexError
   \<and> fst (detect ppf4 det22 [1, 3, 5, 5, 9] 7)
       = det22\<lparr>last_timestamp := 7, lead_window := [5, 5], lag_window := [1, 3]\<rparr>
   \<and> last_timestamp (fst (detect ppf4 det22 [1, 3, 5, 5, 9] 7)) = 7
   \<and> detect ppf4 det22 [] 7 = (det22\<lparr>last_timestamp := 7\<rparr>, Inr [])
   \<and> (\<exists>n<length [1, 3, 5, 5, 9 :: real].
         fst (detect ppf4 det22 [1, 3, 5, 5, 9] 7)
           = pushes (det22\<lparr>last_timestamp := 7\<rparr>) (take (Suc n) [1, 3, 5, 5, 9]))
   \<and> snd (detect ppf4 det44 [1, 1, 3, 3, 1, 3, 3, 1] 7)
       = Inr [\<lparr>score = 3, bitmp1 = [[0, 0], [1, 0]], bitmp2 = [[1, 0], [0, 1]]\<rparr>]
   \<and> fst (detect ppf4 det44 [1, 1, 3, 3, 1, 3, 3, 1] 7)
       = pushes (det44\<lparr>last_timestamp := 7\<rparr>) [1, 1, 3, 3, 1, 3, 3, 1]"
proof -
  have e: "snd (detect ppf4 det22 [1, 3, 5, 5, 9] 7) = Inl IndexError"
    and f: "fst (detect ppf4 det22 [1, 3, 5, 5, 9] 7)
       = det22\<lparr>last_timestamp := 7, lead_window := [5, 5], lag_window := [1, 3]\<rparr>"
    by (simp_all add: detect_det22_abort)
  have s: "snd (detect ppf4 det44 [1, 1, 3, 3, 1, 3, 3, 1] 7)
       = Inr [\<lparr>score = 3, bitmp1 = [[0, 0], [1, 0]], bitmp2 = [[1, 0], [0, 1]]\<rparr>]"
    by (simp add: detect_det44_run)
  note t1 = detect_timestamp_and_state[of ppf4 det22 "[1, 3, 5, 5, 9]" 7 "[]" IndexError]
  note t2 = detect_timestamp_and_state[of ppf4 det44 "[1, 1, 3, 3, 1, 3, 3, 1]" 7
      "[\<lparr>score = 3, bitmp1 = [[0, 0], [1, 0]], bitmp2 = [[1, 0], [0, 1]]\<rparr>]" IndexError]
  from t1 e have "\<exists>n<length [1, 3, 5, 5, 9 :: real].
         fst (detect ppf4 det22 [1, 3, 5, 5, 9] 7)
           = pushes (det22\<lparr>last_timestamp := 7\<rparr>) (take (Suc n) [1, 3, 5, 5, 9])"
    by blast
  moreover from t1 have "last_timestamp (fst (detect ppf4 det22 [1, 3, 5, 5, 9] 7)) = 7"
    "detect ppf4 det22 [] 7 = (det22\<lparr>last_timestamp := 7\<rparr>, Inr [])"
    by blast+
  moreover from t2 s have "fst (detect ppf4 det44 [1, 1, 3, 3, 1, 3, 3, 1] 7)
       = pushes (det44\<lparr>last_timestamp := 7\<rparr>) [1, 1, 3, 3, 1, 3, 3, 1]"
    by blast
  ultimately show ?thesis using e f s by blast
qed

end
